theory Spec2Isabelle
  imports Complex_Main
begin

section \<open>The regular expressions of the script\<close>

text \<open>
  The script compiles three patterns with \<open>re.compile\<close> and applies them with
  \<open>.match\<close>, which anchors at the start of the name and returns the first result of a
  backtracking search. The fragment of the pattern language that the script uses is
  embedded as a datatype; a match state is the text consumed so far, the text still to be
  read and the contents of capture group 1.
\<close>

datatype re =
    Eps
  | Lit char
  | Digit
  | Dot
  | Bol
  | Eol
  | Cat re re
  | Or re re
  | Star re
  | Plus re
  | Group re

type_synonym rstate = "string \<times> string \<times> string option"

definition is_digit :: "char \<Rightarrow> bool" where
  "is_digit c = (c \<in> set ''0123456789'')"

definition newline :: char where
  "newline = CHR 0x0A"

text \<open>
  Greedy repetition: one more round of the body is tried before stopping, and a round
  must consume input. The fuel is the length of the remaining text, which bounds the
  number of rounds.
\<close>

fun iter :: "(rstate \<Rightarrow> rstate list) \<Rightarrow> nat \<Rightarrow> rstate \<Rightarrow> rstate list" where
  "iter f 0 s = [s]"
| "iter f (Suc n) s =
     concat (map (iter f n)
       (filter (\<lambda>s'. length (fst (snd s')) < length (fst (snd s))) (f s))) @ [s]"

primrec run :: "re \<Rightarrow> rstate \<Rightarrow> rstate list" where
  "run Eps = (\<lambda>s. [s])"
| "run (Lit c) = (\<lambda>(seen, rest, g).
     case rest of [] \<Rightarrow> [] | x # xs \<Rightarrow> if x = c then [(seen @ [x], xs, g)] else [])"
| "run Digit = (\<lambda>(seen, rest, g).
     case rest of [] \<Rightarrow> [] | x # xs \<Rightarrow> if is_digit x then [(seen @ [x], xs, g)] else [])"
| "run Dot = (\<lambda>(seen, rest, g).
     case rest of [] \<Rightarrow> [] | x # xs \<Rightarrow> if x \<noteq> newline then [(seen @ [x], xs, g)] else [])"
| "run Bol = (\<lambda>(seen, rest, g). if seen = [] then [(seen, rest, g)] else [])"
| "run Eol = (\<lambda>(seen, rest, g).
     if rest = [] \<or> rest = [newline] then [(seen, rest, g)] else [])"
| "run (Cat a b) = (\<lambda>s. concat (map (run b) (run a s)))"
| "run (Or a b) = (\<lambda>s. run a s @ run b s)"
| "run (Star a) = (\<lambda>s. iter (run a) (length (fst (snd s))) s)"
| "run (Plus a) = (\<lambda>s.
     concat (map (\<lambda>s'. iter (run a) (length (fst (snd s'))) s') (run a s)))"
| "run (Group a) = (\<lambda>(seen, rest, g).
     map (\<lambda>(seen', rest', g'). (seen', rest', Some (drop (length seen) seen')))
       (run a (seen, rest, g)))"

text \<open>\<open>regexp.match(name)\<close>: \<open>None\<close>, or the match object, of which the script reads
  only \<open>group(1)\<close>.\<close>

definition re_match :: "re \<Rightarrow> string \<Rightarrow> string option option" where
  "re_match r name =
     (case run r ([], name, None) of [] \<Rightarrow> None | (seen, rest, g) # _ \<Rightarrow> Some g)"

fun lits :: "string \<Rightarrow> re" where
  "lits [c] = Lit c"
| "lits (c # cs) = Cat (Lit c) (lits cs)"
| "lits [] = Eps"

fun seq :: "re list \<Rightarrow> re" where
  "seq [r] = r"
| "seq (r # rs) = Cat r (seq rs)"
| "seq [] = Eps"

text \<open>\<open>"^" + "CWE([0-9]+)_.*" + "|" + "s[0-9]+" + "$"\<close>: the alternation binds weakest,
  so \<open>^\<close> belongs to the first branch and \<open>$\<close> to the second.\<close>

definition dirs_regexp :: re where
  "dirs_regexp =
     Or (seq [Bol, lits ''CWE'', Group (Plus Digit), Lit CHR ''_'', Star Dot])
        (seq [Lit CHR ''s'', Plus Digit, Eol])"

text \<open>\<open>"^CWE[0-9]+_.*\.(c|cpp)$"\<close> and \<open>"build\.xml$"\<close>.\<close>

definition files_regexp_cpp :: re where
  "files_regexp_cpp =
     seq [Bol, lits ''CWE'', Plus Digit, Lit CHR ''_'', Star Dot, Lit CHR ''.'',
          Group (Or (Lit CHR ''c'') (lits ''cpp'')), Eol]"

definition files_regexp_java :: re where
  "files_regexp_java = seq [lits ''build'', Lit CHR ''.'', lits ''xml'', Eol]"

text \<open>
  What the directory pattern accepts, computed directly on the name: the label of a
  \<open>CWE\<close> directory (the whole digit run, which must be followed by an underscore), and
  the names accepted by the second branch. Python's \<open>$\<close> also matches just before a
  line feed that ends the name.
\<close>

definition cwe_label :: "string \<Rightarrow> string option" where
  "cwe_label name =
     (let r = drop 3 name; ds = takeWhile is_digit r in
      if take 3 name = ''CWE'' \<and> ds \<noteq> [] \<and> take 1 (dropWhile is_digit r) = ''_''
      then Some ds else None)"

definition s_name :: "string \<Rightarrow> bool" where
  "s_name name =
     (let r = drop 1 name; ds = takeWhile is_digit r in
      take 1 name = ''s'' \<and> ds \<noteq> [] \<and>
      (dropWhile is_digit r = [] \<or> dropWhile is_digit r = [newline]))"

text \<open>
  The two shapes of directory name as the specification and the comment above the pattern
  describe them, for comparison with the pattern: \<open>CWE\<close>, a label of digits, an
  underscore and any suffix; and \<open>s\<close> followed only by digits.
\<close>

definition category_dir :: "string \<Rightarrow> string \<Rightarrow> bool" where
  "category_dir name i =
     (i \<noteq> [] \<and> list_all is_digit i \<and> take (length i + 4) name = ''CWE'' @ i @ ''_'')"

definition subdivision_dir :: "string \<Rightarrow> bool" where
  "subdivision_dir name =
     (case name of [] \<Rightarrow> False
      | c # ds \<Rightarrow> c = CHR ''s'' \<and> ds \<noteq> [] \<and> list_all is_digit ds)"

section \<open>Values, output and the file system\<close>

datatype exn = Exception string | UnboundLocalError string

text \<open>
  \<open>print\<close> writes the concatenation of the \<open>str\<close> of its pieces. Lists, sets and
  exceptions are kept as values, since their rendering is Python's \<open>repr\<close>.
\<close>

datatype pyval =
    Str string
  | StrList "string list"
  | StrSet "string set"
  | ExnList "exn list"

datatype event =
    Print "pyval list"
  | ListDir string
  | Call "string list"

definition digit_char :: "nat \<Rightarrow> char" where
  "digit_char n = ''0123456789'' ! n"

fun str_nat :: "nat \<Rightarrow> string" where
  "str_nat n = (if n < 10 then [digit_char n] else str_nat (n div 10) @ [digit_char (n mod 10)])"

definition str_int :: "int \<Rightarrow> string" where
  "str_int i = (if i < 0 then ''-'' @ str_nat (nat (- i)) else str_nat (nat i))"

definition quote :: char where
  "quote = CHR 0x27"

definition dquote :: char where
  "dquote = CHR 0x22"

definition backslash :: char where
  "backslash = CHR 0x5C"

text \<open>\<open>plural\<close>.\<close>

definition plural :: "int \<Rightarrow> string" where
  "plural num = (if num = 1 then [] else ''s'')"

text \<open>
  A directory tree: \<open>os.listdir\<close> returns the names of a directory in the order of the
  list; \<open>os.path.isdir\<close> holds of \<open>Dir\<close>, \<open>os.path.isfile\<close> of \<open>File\<close>, neither of
  \<open>Other\<close>. \<open>os.path.join\<close> is the POSIX one.
\<close>

datatype fsnode = File | Dir "(string \<times> fsnode) list" | Other

definition path_join :: "string \<Rightarrow> string \<Rightarrow> string" where
  "path_join a b =
     (if take 1 b = ''/'' then b
      else if a = [] \<or> last a = CHR ''/'' then a @ b
      else a @ ''/'' @ b)"

text \<open>Truth value of an optional command-line string: \<open>None\<close> and \<open>""\<close> are false.\<close>

definition truthy :: "string option \<Rightarrow> bool" where
  "truthy v = (case v of None \<Rightarrow> False | Some s \<Rightarrow> s \<noteq> [])"

text \<open>\<open>s.split(",")\<close>.\<close>

fun split_comma :: "string \<Rightarrow> string list" where
  "split_comma [] = [[]]"
| "split_comma (c # cs) =
     (if c = CHR '','' then [] # split_comma cs
      else (case split_comma cs of [] \<Rightarrow> [[c]] | x # xs \<Rightarrow> (c # x) # xs))"

text \<open>
  The fields of \<open>args\<close> that the modelled code reads, as they stand when \<open>main\<close> has
  parsed the command line, normalised the paths and located the tools.
\<close>

record args =
  language :: string
  cwes :: "string option"
  exclude :: "string option"
  cases :: string
  threads :: int
  cl :: "string option"
  gcc_path :: string
  cl_path :: string
  ant_path :: string
  test_cases_dir :: string
  test_cases_support_dir :: string
  use_pipe :: bool

section \<open>Discovery\<close>

definition hard_excluded :: string where
  "hard_excluded = ''CWE397_Throw_Generic_Exception__declare_dotdotdot_w32_01.cpp''"

definition excluding_msg :: "string \<Rightarrow> event" where
  "excluding_msg child =
     Print [Str (''  excluding '' @ [quote] @ child @ [quote] @
                 '' because that test case explicitly does not work in gcc.'')]"

definition found_msg :: "string \<Rightarrow> nat \<Rightarrow> event" where
  "found_msg label n =
     Print [Str (''    found CWE '' @ label @ '' with '' @ str_nat n @ '' test sources'')]"

text \<open>
  The flags \<open>recurse_in\<close> and \<open>report\<close> that the loop body computes from
  \<open>dir_match.group(1)\<close> for a directory whose name matched.
\<close>

definition dir_decision :: "string option \<Rightarrow> string set \<Rightarrow> string set \<Rightarrow> bool \<times> bool" where
  "dir_decision g cwes_include cwes_exclude =
     (if truthy g then
        (case g of
           None \<Rightarrow> (True, False)
         | Some label \<Rightarrow>
             (let (recurse_in, report) =
                    (if label \<in> cwes_include \<or> cwes_include = {} then (True, True)
                     else (False, False));
                  recurse_in = (if label \<in> cwes_exclude then False else recurse_in)
              in (recurse_in, report)))
      else (True, False))"

text \<open>
  \<open>find_all_testcases_rec\<close> lists \<open>search_dir\<close> and runs the loop body
  (\<open>visit_child\<close>) on every child in turn; both return the test sources found and the
  output and directory reads they caused.
\<close>

fun find_all_testcases_rec ::
    "string \<Rightarrow> (string \<times> fsnode) list \<Rightarrow> re \<Rightarrow> re \<Rightarrow> string set \<Rightarrow> string set \<Rightarrow> bool
      \<Rightarrow> string list \<times> event list"
  and visit_child ::
    "string \<Rightarrow> string \<times> fsnode \<Rightarrow> re \<Rightarrow> re \<Rightarrow> string set \<Rightarrow> string set \<Rightarrow> bool
      \<Rightarrow> string list \<times> event list"
where
  "find_all_testcases_rec search_dir listing dirs_re files_re cwes_include cwes_exclude for_gcc =
     (let rs = map (\<lambda>entry.
                 visit_child search_dir entry dirs_re files_re cwes_include cwes_exclude for_gcc)
               listing
      in (concat (map fst rs), ListDir search_dir # concat (map snd rs)))"
| "visit_child search_dir (child, node) dirs_re files_re cwes_include cwes_exclude for_gcc =
     (let child_path = path_join search_dir child;
          (r1, e1) =
            (case node of
               Dir sub \<Rightarrow>
                 (case re_match dirs_re child of
                    None \<Rightarrow> ([], [])
                  | Some g \<Rightarrow>
                      (let (recurse_in, report) = dir_decision g cwes_include cwes_exclude in
                       if recurse_in then
                         (let (new_results, ev) =
                                find_all_testcases_rec child_path sub dirs_re files_re
                                  cwes_include cwes_exclude for_gcc
                          in (new_results,
                              ev @ (if report
                                    then [found_msg (case g of None \<Rightarrow> [] | Some l \<Rightarrow> l)
                                            (length new_results)]
                                    else [])))
                       else ([], [])))
             | _ \<Rightarrow> ([], []));
          (r2, e2) =
            (case node of
               File \<Rightarrow>
                 (case re_match files_re child of
                    None \<Rightarrow> ([], [])
                  | Some _ \<Rightarrow>
                      if child = hard_excluded \<and> for_gcc then ([], [excluding_msg child])
                      else ([child_path], []))
             | _ \<Rightarrow> ([], []))
      in (r1 @ r2, e1 @ e2))"

definition dirs_exp :: string where
  "dirs_exp = ''^'' @ ''CWE([0-9]+)_.*'' @ ''|'' @ ''s[0-9]+'' @ ''$''"

definition files_exp_cpp :: string where
  "files_exp_cpp = ''^CWE[0-9]+_.*'' @ [backslash] @ ''.(c|cpp)$''"

definition files_exp_java :: string where
  "files_exp_java = ''build'' @ [backslash] @ ''.xml$''"

text \<open>
  The sets \<open>cwes_include\<close> and \<open>cwes_exclude\<close>: the comma-separated pieces of the
  option as text, or the empty set when the option is absent or empty.
\<close>

definition cwe_set :: "string option \<Rightarrow> string set" where
  "cwe_set v =
     (if truthy v then (case v of None \<Rightarrow> {} | Some c \<Rightarrow> set (split_comma c)) else {})"

text \<open>\<open>find_all_testcases\<close>, given the listing of the tree below
  \<open>args.test_cases_dir\<close>.\<close>

definition find_all_testcases ::
    "args \<Rightarrow> (string \<times> fsnode) list \<Rightarrow> event list \<times> (exn + string list)" where
  "find_all_testcases a tree =
     (let ev1 = [Print [Str (''  dirs_exp = '' @ dirs_exp)]];
          files =
            (if language a = ''cpp'' then Inr (files_exp_cpp, files_regexp_cpp)
             else if language a = ''java'' then Inr (files_exp_java, files_regexp_java)
             else Inl (Exception ''Unknown language (find_all_testcases).''))
      in case files of
           Inl e \<Rightarrow> (ev1, Inl e)
         | Inr (files_exp, files_regexp) \<Rightarrow>
             (let ev2 = [Print [Str (''  files_exp = '' @ files_exp)]];
                  cwes_include = cwe_set (cwes a);
                  cwes_exclude = cwe_set (exclude a);
                  ev3 = [Print [Str ''  include = '', StrSet cwes_include],
                         Print [Str ''  exclude = '', StrSet cwes_exclude]];
                  (results, ev4) =
                    find_all_testcases_rec (test_cases_dir a) tree dirs_regexp files_regexp
                      cwes_include cwes_exclude (\<not> truthy (cl a))
              in (ev1 @ ev2 @ ev3 @ ev4, Inr results)))"

text \<open>
  Where a file lies for discovery: \<open>located\<close> holds when the directories \<open>ds\<close>, taken
  from the root downwards, exist, are entered by the walk, and the last one holds the file
  \<open>f\<close>; \<open>path_of\<close> is the path the walk builds for it. A listing is valid when its
  names are names of directory entries: not empty and without a slash.
\<close>

fun located ::
    "string set \<Rightarrow> string set \<Rightarrow> (string \<times> fsnode) list \<Rightarrow> string list \<Rightarrow> string \<Rightarrow> bool" where
  "located inc exc listing [] f = list_ex (\<lambda>(n, node). n = f \<and> node = File) listing"
| "located inc exc listing (d # ds) f =
     list_ex (\<lambda>(n, node). n = d \<and>
         (case node of
            Dir sub \<Rightarrow>
              (case re_match dirs_regexp d of
                 None \<Rightarrow> False
               | Some g \<Rightarrow> fst (dir_decision g inc exc) \<and> located inc exc sub ds f)
          | _ \<Rightarrow> False))
       listing"

definition path_of :: "string \<Rightarrow> string list \<Rightarrow> string \<Rightarrow> string" where
  "path_of base ds f = foldl path_join base (ds @ [f])"

definition valid_name :: "string \<Rightarrow> bool" where
  "valid_name n = (n \<noteq> [] \<and> CHR ''/'' \<notin> set n)"

fun valid_tree :: "(string \<times> fsnode) list \<Rightarrow> bool" where
  "valid_tree listing =
     list_all (\<lambda>(n, node). valid_name n \<and> (case node of Dir sub \<Rightarrow> valid_tree sub | _ \<Rightarrow> True))
       listing"

definition basename :: "string \<Rightarrow> string" where
  "basename p = rev (takeWhile (\<lambda>c. c \<noteq> CHR ''/'') (rev p))"

section \<open>Building\<close>

text \<open>
  \<open>build_source_files\<close>. The two exit statuses are what \<open>subprocess.call\<close> returns for
  the quiet run and for the verbose re-run (made only when the first is not zero). The name
  in the final message is the loop variable \<open>source_path\<close>, which is unbound when
  \<open>source_paths\<close> is empty.
\<close>

definition failed_build_msgs :: "string list \<Rightarrow> string list \<Rightarrow> int \<Rightarrow> int \<Rightarrow> event list" where
  "failed_build_msgs cmd verbose rtn rtn2 =
     [Print [Str ''*** FAILED BUILD:''],
      Print [Str (''exec: '' @ [dquote]), StrList (cmd @ verbose), Str [dquote]],
      Print [Str []],
      Call (cmd @ verbose),
      Print [Str (''exit code: '' @ str_int rtn @ '' / '' @ str_int rtn2)],
      Print [Str ''***''],
      Print [Str []]]"

definition build_failed :: "string list \<Rightarrow> exn" where
  "build_failed source_paths =
     Exception (''Build '' @ [quote] @ last source_paths @ [quote] @ '' failed.'')"

definition execute :: "string list \<Rightarrow> string list \<Rightarrow> string list \<Rightarrow> int \<times> int
    \<Rightarrow> event list \<times> (exn + unit)" where
  "execute cmd verbose source_paths r =
     (case r of (rtn, rtn2) \<Rightarrow>
        if rtn \<noteq> 0 then
          (Call cmd # failed_build_msgs cmd verbose rtn rtn2,
           (if source_paths = [] then Inl (UnboundLocalError ''source_path'')
            else Inl (build_failed source_paths)))
        else ([Call cmd], Inr ()))"

definition build_source_files :: "args \<Rightarrow> string list \<Rightarrow> int \<times> int \<Rightarrow> event list \<times> (exn + unit)" where
  "build_source_files a source_paths r =
     (let cases_macro =
            (if cases a = ''good'' then Inr (Some ''OMITBAD'')
             else if cases a = ''bad'' then Inr (Some ''OMITGOOD'')
             else if cases a = ''both'' then Inr None
             else Inl (Exception ''Unknown cases.''))
      in case cases_macro of
           Inl e \<Rightarrow> ([], Inl e)
         | Inr cases_macro \<Rightarrow>
             if language a = ''cpp'' then
               (if truthy (cl a) then
                  (let cmd = [cl_path a] @ [''/I'' @ test_cases_support_dir a]
                         @ (case cases_macro of None \<Rightarrow> [] | Some m \<Rightarrow> [''/D'' @ m])
                         @ [''/W3'', ''/MT'', ''/GS'', ''/RTC1'', ''/bigobj'', ''/EHsc'', ''/nologo'']
                         @ [''/c'']
                         @ source_paths;
                       verbose = []
                   in execute cmd verbose source_paths r)
                else
                  (let cmd = [gcc_path a] @ [''-I'', test_cases_support_dir a]
                         @ (case cases_macro of None \<Rightarrow> [] | Some m \<Rightarrow> [''-D'' @ m])
                         @ [''-DCALG_RC5=(ALG_CLASS_DATA_ENCRYPT|ALG_TYPE_BLOCK|ALG_SID_RC5)'']
                         @ [''-DNO_ERROR=0L'']
                         @ [''-D__STDC_FORMAT_MACROS'']
                         @ [''-c'']
                         @ [''-wrapper'', ''true'']
                         @ (if use_pipe a then [''-pipe''] else [])
                         @ source_paths;
                       verbose = [''-v'', ''-pass-exit-codes'']
                   in execute cmd verbose source_paths r))
             else if language a = ''java'' then
               (let ev = [Print [Str ''build '', StrList source_paths]];
                    verbose = [''-v'']
                in if length source_paths > 1
                   then (ev, Inl (Exception
                           (''Can'' @ [quote] @ ''t build more than one file at a time with ''
                             @ [quote] @ ''ant'' @ [quote] @ ''.'')))
                   else (let cmd = [ant_path a]
                               @ concat (map (\<lambda>source_path. [''-buildfile'', source_path]) source_paths);
                             (ev', res) = execute cmd verbose source_paths r
                         in (ev @ ev', res)))
             else ([], Inl (Exception
                     (''Don'' @ [quote] @ ''t know how to build for this language (build_source_files).''))))"

section \<open>The thread pool\<close>

text \<open>
  \<open>Jobs\<close>: the value of the semaphore \<open>slots\<close>, the started threads in the order of
  \<open>outstanding_jobs\<close> (each with its job and whether it is still running) and the list
  \<open>errors\<close>. \<open>wait_jobs\<close> assigns the empty list to a new attribute
  \<open>_outstanding_jobs\<close>, so \<open>outstanding_jobs\<close> itself is never emptied.
\<close>

record 'j jobs =
  slots :: nat
  outstanding_jobs :: "('j \<times> bool) list"
  errors :: "exn list"

definition Jobs :: "int \<Rightarrow> 'j jobs" where
  "Jobs n = \<lparr>slots = nat n, outstanding_jobs = [], errors = []\<rparr>"

text \<open>\<open>start_job\<close> blocks (\<open>None\<close>) while no slot is free.\<close>

definition start_job :: "'j \<Rightarrow> 'j jobs \<Rightarrow> 'j jobs option" where
  "start_job job p =
     (if slots p = 0 then None
      else Some (p\<lparr>slots := slots p - 1,
                    outstanding_jobs := outstanding_jobs p @ [(job, True)]\<rparr>))"

text \<open>
  The end of thread \<open>i\<close>: \<open>job.do()\<close> has returned (\<open>None\<close>) or raised; a raised
  exception is appended to \<open>errors\<close>, and the slot is released in either case.
\<close>

definition do_job_end :: "nat \<Rightarrow> exn option \<Rightarrow> 'j jobs \<Rightarrow> 'j jobs option" where
  "do_job_end i outcome p =
     (if i < length (outstanding_jobs p) \<and> snd (outstanding_jobs p ! i) then
        Some (p\<lparr>errors := errors p @ (case outcome of None \<Rightarrow> [] | Some e \<Rightarrow> [e]),
                slots := slots p + 1,
                outstanding_jobs := (outstanding_jobs p)[i := (fst (outstanding_jobs p ! i), False)]\<rparr>)
      else None)"

definition has_errors :: "'j jobs \<Rightarrow> bool" where
  "has_errors p = (errors p \<noteq> [])"

text \<open>\<open>wait_jobs\<close> blocks (\<open>None\<close>) until every started thread has ended.\<close>

definition wait_jobs :: "'j jobs \<Rightarrow> (event list \<times> (exn + unit)) option" where
  "wait_jobs p =
     (if list_ex snd (outstanding_jobs p) then None
      else if length (errors p) > 0 then
        Some ([Print [Str (''*** exceptions occurred in '' @ str_nat (length (errors p)) @ '' threads:'')],
               Print [ExnList (errors p)],
               Print [Str []]],
              Inl (Exception ''Exception in thread(s).''))
      else Some ([], Inr ()))"

definition executing :: "'j jobs \<Rightarrow> nat" where
  "executing p = length (filter snd (outstanding_jobs p))"

text \<open>The pool driven by any client: submissions and thread ends in any order.\<close>

datatype 'j pool_action = Submit 'j | End nat "exn option"

definition pool_step :: "'j pool_action \<Rightarrow> 'j jobs \<Rightarrow> 'j jobs option" where
  "pool_step act p =
     (case act of Submit job \<Rightarrow> start_job job p | End i outcome \<Rightarrow> do_job_end i outcome p)"

fun pool_run :: "'j pool_action list \<Rightarrow> 'j jobs \<Rightarrow> 'j jobs option" where
  "pool_run [] p = Some p"
| "pool_run (act # acts) p =
     (case pool_step act p of None \<Rightarrow> None | Some p' \<Rightarrow> pool_run acts p')"

section \<open>The main program\<close>

text \<open>
  \<open>main\<close> from the line \<open>args.output_mutex = ...\<close> to \<open>jobs.wait_jobs()\<close>. Changing the
  working directory and the time stamps are left out; the output mutex only keeps the
  output of one failed build together, and a build is one step here.
\<close>

definition init_args :: "args \<Rightarrow> args" where
  "init_args a =
     (let a = a\<lparr>use_pipe := True\<rparr> in
      if truthy (cl a) then a\<lparr>use_pipe := False\<rparr> else a)"

definition scan_testcases ::
    "args \<Rightarrow> (string \<times> fsnode) list \<Rightarrow> event list \<times> (exn + string list)" where
  "scan_testcases a tree =
     (let ev0 = [Print [Str ''scanning SAMATE test cases...'']] in
      case find_all_testcases a tree of
        (ev, Inl e) \<Rightarrow> (ev0 @ ev, Inl e)
      | (ev, Inr testcases) \<Rightarrow>
          (ev0 @ ev
             @ [Print [Str (''  found '' @ str_nat (length testcases) @ '' test sources total'')]]
             @ (if length testcases > 0
                then [Print [Str (''    from '' @ hd testcases)],
                      Print [Str (''    to '' @ last testcases)]]
                else [])
             @ [Print [Str []]],
           Inr testcases))"

definition support_files :: "args \<Rightarrow> string list" where
  "support_files a =
     [path_join (test_cases_support_dir a) ''io.c'']
       @ (if truthy (cl a) then [path_join (test_cases_support_dir a) ''std_thread.c''] else [])"

text \<open>
  The loop \<open>while not success\<close>. The environment gives the exit statuses of the
  \<open>k\<close>-th call of \<open>build_source_files\<close>; the result carries the number of the next call.
\<close>

function build_support_files ::
    "args \<Rightarrow> string list \<Rightarrow> (nat \<Rightarrow> int \<times> int) \<Rightarrow> nat \<Rightarrow> event list \<times> nat \<times> (exn + args)" where
  "build_support_files a files env k =
     (case build_source_files a files (env k) of
        (ev, Inr _) \<Rightarrow> (ev, Suc k, Inr a)
      | (ev, Inl e) \<Rightarrow>
          if use_pipe a then
            (case build_support_files (a\<lparr>use_pipe := False\<rparr>) files env (Suc k) of
               (ev', k', res) \<Rightarrow>
                 (ev @ [Print [Str (''trying without `-pipe`...'')], Print [Str []]] @ ev', k', res))
          else (ev, Suc k, Inl e))"
  by pat_completeness auto
termination
  by (relation "measure (\<lambda>(a, files, env, k). if use_pipe a then 1 else 0)") auto

definition build_support ::
    "args \<Rightarrow> (nat \<Rightarrow> int \<times> int) \<Rightarrow> event list \<times> nat \<times> (exn + args)" where
  "build_support a env =
     (if language a = ''cpp'' then
        (case build_support_files a (support_files a) env 0 of
           (ev, k, res) \<Rightarrow>
             ([Print [Str ''building support files...''], Print [Str []]] @ ev, k, res))
      else ([], 0, Inr a))"

text \<open>
  \<open>round(len(testcases) / args.threads)\<close> for a positive divisor: the quotient rounded to
  the nearest integer, a tie going to the even one. The script divides in floating point,
  which gives the same result for every list shorter than \<open>2 ^ 52\<close>.
\<close>

definition py_round_div :: "int \<Rightarrow> int \<Rightarrow> int" where
  "py_round_div n d =
     (let q = n div d; r = n mod d in
      if 2 * r < d then q
      else if 2 * r > d then q + 1
      else if even q then q else q + 1)"

definition chunk_max_of :: "args \<Rightarrow> string list \<Rightarrow> int" where
  "chunk_max_of a testcases =
     (if language a = ''java'' then 1
      else min 50 (py_round_div (int (length testcases)) (threads a)))"

text \<open>
  The state of the submission loop and of the pool: where the main thread stands, its
  locals \<open>chunk\<close> and \<open>chunk_size\<close>, the pool \<open>jobs\<close>, the output and calls so far, and the chunks
  handed to \<open>build_source_files\<close> or to \<open>start_job\<close> so far, in order.
\<close>

datatype pc =
    Loop "string list"
  | Check "string list"
  | Remainder
  | Wait
  | Done "exn option"

record main_state =
  pc :: pc
  chunk :: "string list"
  chunk_size :: nat
  jobs :: "string list jobs"
  trace :: "event list"
  dispatched :: "string list list"

text \<open>The state in which the loop over \<open>testcases\<close> is entered.\<close>

definition loop_start :: "args \<Rightarrow> string list \<Rightarrow> event list \<Rightarrow> main_state" where
  "loop_start a testcases ev =
     \<lparr>pc = Loop testcases, chunk = [], chunk_size = 0, jobs = Jobs (threads a), trace = ev,
      dispatched = []\<rparr>"

definition threads_msg :: "args \<Rightarrow> nat \<Rightarrow> event" where
  "threads_msg a cpu_count =
     Print [Str (''building test cases ('' @ str_int (threads a) @ '' thread'' @ plural (threads a)
                 @ '' / '' @ str_nat cpu_count @ '' CPU'' @ plural (int cpu_count) @ '')...'')]"

definition nonpositive_threads :: exn where
  "nonpositive_threads = Exception ([quote] @ ''threads'' @ [quote] @ '' argument is non-positive.'')"

text \<open>
  Everything before the loop. \<open>cpu_count\<close> is \<open>None\<close> when
  \<open>multiprocessing.cpu_count()\<close> raised \<open>NotImplementedError\<close>, which leaves the
  variable unbound.
\<close>

definition main_start ::
    "args \<Rightarrow> nat option \<Rightarrow> (string \<times> fsnode) list \<Rightarrow> (nat \<Rightarrow> int \<times> int)
      \<Rightarrow> event list \<times> (exn + args \<times> int \<times> main_state)" where
  "main_start a0 cpu_count tree env =
     (let a = init_args a0 in
      case scan_testcases a tree of
        (ev1, Inl e) \<Rightarrow> (ev1, Inl e)
      | (ev1, Inr testcases) \<Rightarrow>
          (case build_support a env of
             (ev2, k, Inl e) \<Rightarrow> (ev1 @ ev2, Inl e)
           | (ev2, k, Inr a) \<Rightarrow>
               (case cpu_count of
                  None \<Rightarrow> (ev1 @ ev2, Inl (UnboundLocalError ''cpu_count''))
                | Some n \<Rightarrow>
                    (let ev3 = [threads_msg a n, Print [Str []]] in
                     if threads a \<ge> 1 then
                       (ev1 @ ev2 @ ev3,
                        Inr (a, chunk_max_of a testcases,
                             loop_start a testcases (ev1 @ ev2 @ ev3)))
                     else (ev1 @ ev2 @ ev3, Inl nonpositive_threads)))))"

text \<open>
  One step of the main thread. The exit statuses are used only when the step calls
  \<open>build_source_files\<close> itself (\<open>args.threads == 1\<close>). \<open>None\<close>: the main thread is
  blocked in \<open>start_job\<close> or \<open>wait_jobs\<close>, or has finished.
\<close>

definition dispatch :: "args \<Rightarrow> int \<times> int \<Rightarrow> pc \<Rightarrow> main_state \<Rightarrow> main_state option" where
  "dispatch a r target s =
     (if threads a = 1 then
        (case build_source_files a (chunk s) r of
           (ev, Inl e) \<Rightarrow>
             Some (s\<lparr>trace := trace s @ ev, dispatched := dispatched s @ [chunk s],
                      pc := Done (Some e)\<rparr>)
         | (ev, Inr _) \<Rightarrow>
             Some (s\<lparr>trace := trace s @ ev, dispatched := dispatched s @ [chunk s],
                      pc := target\<rparr>))
      else
        (case start_job (chunk s) (jobs s) of
           None \<Rightarrow> None
         | Some p \<Rightarrow> Some (s\<lparr>jobs := p, dispatched := dispatched s @ [chunk s], pc := target\<rparr>)))"

definition main_step :: "args \<Rightarrow> int \<Rightarrow> int \<times> int \<Rightarrow> main_state \<Rightarrow> main_state option" where
  "main_step a chunk_max r s =
     (case pc s of
        Loop [] \<Rightarrow> Some (s\<lparr>pc := Remainder\<rparr>)
      | Loop (testcase # rest) \<Rightarrow>
          (let s = s\<lparr>chunk := chunk s @ [testcase], chunk_size := chunk_size s + 1\<rparr> in
           if int (chunk_size s) \<ge> chunk_max
           then dispatch a r (Check rest) s
           else Some (s\<lparr>pc := Loop rest\<rparr>))
      | Check rest \<Rightarrow>
          if threads a \<noteq> 1 \<and> has_errors (jobs s) then Some (s\<lparr>pc := Remainder\<rparr>)
          else Some (s\<lparr>chunk := [], chunk_size := 0, pc := Loop rest\<rparr>)
      | Remainder \<Rightarrow>
          if chunk_size s \<ge> 1 then dispatch a r Wait s else Some (s\<lparr>pc := Wait\<rparr>)
      | Wait \<Rightarrow>
          (case wait_jobs (jobs s) of
             None \<Rightarrow> None
           | Some (ev, Inl e) \<Rightarrow> Some (s\<lparr>trace := trace s @ ev, pc := Done (Some e)\<rparr>)
           | Some (ev, Inr _) \<Rightarrow> Some (s\<lparr>trace := trace s @ ev, pc := Done None\<rparr>))
      | Done _ \<Rightarrow> None)"

text \<open>The end of thread \<open>i\<close>, whose job is \<open>build_source_files\<close> on its chunk.\<close>

definition thread_end :: "args \<Rightarrow> nat \<Rightarrow> int \<times> int \<Rightarrow> main_state \<Rightarrow> main_state option" where
  "thread_end a i r s =
     (if i < length (outstanding_jobs (jobs s)) then
        (case build_source_files a (fst (outstanding_jobs (jobs s) ! i)) r of
           (ev, res) \<Rightarrow>
             (case do_job_end i (case res of Inl e \<Rightarrow> Some e | Inr _ \<Rightarrow> None) (jobs s) of
                None \<Rightarrow> None
              | Some p \<Rightarrow> Some (s\<lparr>jobs := p, trace := trace s @ ev\<rparr>)))
      else None)"

datatype action = Main "int \<times> int" | Thread nat "int \<times> int"

definition step :: "args \<Rightarrow> int \<Rightarrow> action \<Rightarrow> main_state \<Rightarrow> main_state option" where
  "step a chunk_max act s =
     (case act of Main r \<Rightarrow> main_step a chunk_max r s | Thread i r \<Rightarrow> thread_end a i r s)"

fun run_steps :: "args \<Rightarrow> int \<Rightarrow> action list \<Rightarrow> main_state \<Rightarrow> main_state option" where
  "run_steps a chunk_max [] s = Some s"
| "run_steps a chunk_max (act # acts) s =
     (case step a chunk_max act s of None \<Rightarrow> None | Some s' \<Rightarrow> run_steps a chunk_max acts s')"

section \<open>Notions used in the statements\<close>

text \<open>The exceptions raised by the jobs that ended in a run of the pool, in the order of
  their ends.\<close>

definition failures :: "'j pool_action list \<Rightarrow> exn list" where
  "failures acts =
     concat (map (\<lambda>act. case act of End i (Some e) \<Rightarrow> [e] | _ \<Rightarrow> []) acts)"

text \<open>The case selections that \<open>argparse\<close> admits, and the events that are process
  invocations.\<close>

definition valid_cases :: "args \<Rightarrow> bool" where
  "valid_cases a = (cases a = ''good'' \<or> cases a = ''bad'' \<or> cases a = ''both'')"

definition is_call :: "event \<Rightarrow> bool" where
  "is_call e = (case e of Call cmd \<Rightarrow> True | _ \<Rightarrow> False)"

text \<open>A state in which no job has failed, no thread is running and a slot is free.\<close>

definition quiet :: "args \<Rightarrow> main_state \<Rightarrow> bool" where
  "quiet a s =
     (errors (jobs s) = [] \<and> \<not> list_ex snd (outstanding_jobs (jobs s)) \<and> slots (jobs s) \<noteq> 0)"

section \<open>Chunks\<close>

text \<open>
  The size at which a chunk is handed on: \<open>chunk_size >= chunk_max\<close> is tested after an
  element has been added, so a \<open>chunk_max\<close> below 1 acts as 1. \<open>ceil_div n m\<close> is
  \<open>n / m\<close> rounded up.
\<close>

definition batch_size :: "int \<Rightarrow> nat" where
  "batch_size chunk_max = nat (max 1 chunk_max)"

definition ceil_div :: "nat \<Rightarrow> nat \<Rightarrow> nat" where
  "ceil_div n m = (n + m - 1) div m"

text \<open>
  The invariant of the loop, for chunk size \<open>m\<close> and the list \<open>tcs\<close> of test sources:
  unless a job has already failed, the chunks handed on so far all have \<open>m\<close> elements,
  and together with the current chunk and the sources still to come they make up
  \<open>tcs\<close>; after the remainder step only the last chunk may be shorter.
\<close>

definition full :: "nat \<Rightarrow> string list list \<Rightarrow> bool" where
  "full m ds = (\<forall>b\<in>set ds. length b = m)"

definition complete :: "nat \<Rightarrow> string list \<Rightarrow> string list list \<Rightarrow> bool" where
  "complete m tcs ds =
     (concat ds = tcs \<and> full m (butlast ds) \<and>
      (ds \<noteq> [] \<longrightarrow> 0 < length (last ds) \<and> length (last ds) \<le> m))"

definition loop_inv :: "nat \<Rightarrow> string list \<Rightarrow> main_state \<Rightarrow> bool" where
  "loop_inv m tcs s =
     (case pc s of
        Loop todo \<Rightarrow>
          errors (jobs s) \<noteq> [] \<or>
          (tcs = concat (dispatched s) @ chunk s @ todo \<and> full m (dispatched s) \<and>
           length (chunk s) < m \<and> chunk_size s = length (chunk s))
      | Check todo \<Rightarrow>
          errors (jobs s) \<noteq> [] \<or>
          (tcs = concat (dispatched s) @ todo \<and> full m (dispatched s))
      | Remainder \<Rightarrow>
          errors (jobs s) \<noteq> [] \<or>
          (tcs = concat (dispatched s) @ chunk s \<and> full m (dispatched s) \<and>
           length (chunk s) < m \<and> chunk_size s = length (chunk s))
      | Wait \<Rightarrow> errors (jobs s) \<noteq> [] \<or> complete m tcs (dispatched s)
      | Done None \<Rightarrow> complete m tcs (dispatched s)
      | Done (Some e) \<Rightarrow> True)"

section \<open>Example inputs\<close>

text \<open>
  A configuration for \<open>cpp\<close> with two threads, its variants with \<open>--cl\<close> and with
  \<open>--threads 0\<close>, and a tree that holds the hard-excluded file below a category and a
  subdivision directory, next to a directory that is not part of the suite.
\<close>

definition example_args :: args where
  "example_args =
     \<lparr>language = ''cpp'', cwes = None, exclude = None, cases = ''both'', threads = 2,
      cl = None, gcc_path = ''/usr/bin/gcc'', cl_path = [], ant_path = [],
      test_cases_dir = ''/juliet/C/testcases'',
      test_cases_support_dir = ''/juliet/C/testcasesupport'', use_pipe = False\<rparr>"

definition cl_args :: args where
  "cl_args = example_args\<lparr>cl := Some ''cl'', cl_path := ''/bin/cl''\<rparr>"

definition zero_args :: args where
  "zero_args = example_args\<lparr>threads := 0\<rparr>"

definition example_tree :: "(string \<times> fsnode) list" where
  "example_tree =
     [(''CWE397_Throw_Generic_Exception'', Dir [(''s01'', Dir [(hard_excluded, File)])]),
      (''CACHE_temp'', Dir [(''CWE1_x.c'', File)])]"

text \<open>Exit statuses of successive builds: all zero, only the first not zero, none zero.\<close>

definition always_ok :: "nat \<Rightarrow> int \<times> int" where
  "always_ok k = (0, 0)"

definition fail_once :: "nat \<Rightarrow> int \<times> int" where
  "fail_once k = (if k = 0 then (1, 1) else (0, 0))"

definition always_fail :: "nat \<Rightarrow> int \<times> int" where
  "always_fail k = (1, 1)"

text \<open>
  Four sources and a schedule in which the first job fails before the main thread looks
  at \<open>has_errors\<close>; five sources and a schedule in which every build succeeds.
\<close>

definition example_testcases :: "string list" where
  "example_testcases = [''a.c'', ''b.c'', ''c.c'', ''d.c'']"

definition failing_schedule :: "action list" where
  "failing_schedule = [Main (0, 0), Main (0, 0), Thread 0 (1, 1), Main (0, 0)]"

definition five_testcases :: "string list" where
  "five_testcases = [''a.c'', ''b.c'', ''c.c'', ''d.c'', ''e.c'']"

definition good_schedule :: "action list" where
  "good_schedule =
     [Main (0, 0), Main (0, 0), Main (0, 0), Main (0, 0), Main (0, 0), Thread 0 (0, 0),
      Main (0, 0), Main (0, 0), Main (0, 0), Main (0, 0), Thread 2 (0, 0), Thread 1 (0, 0),
      Main (0, 0)]"

section \<open>What the directory pattern matches\<close>

lemma concat_map_all_Nil: "(\<And>x. x \<in> set xs \<Longrightarrow> f x = []) \<Longrightarrow> concat (map f xs) = []"
  by (induction xs) auto

lemma rev_upt_Suc_shift:
  "rev [0..<Suc (Suc m)] = map Suc (rev [0..<Suc m]) @ [0]"
proof -
  have "[0..<Suc (Suc m)] = 0 # map Suc [0..<Suc m]"
    by (metis map_Suc_upt upt_conv_Cons zero_less_Suc)
  then have "rev [0..<Suc (Suc m)] = rev (0 # map Suc [0..<Suc m])"
    by (rule arg_cong)
  then show ?thesis by (simp only: rev.simps rev_map)
qed

lemma iter_digit:
  "length rest \<le> n \<Longrightarrow>
   iter (run Digit) n (seen, rest, g) =
     map (\<lambda>k. (seen @ take k rest, drop k rest, g))
       (rev [0..<Suc (length (takeWhile is_digit rest))])"
proof (induction n arbitrary: seen rest)
  case 0
  then show ?case by simp
next
  case (Suc n)
  show ?case
  proof (cases rest)
    case Nil
    then show ?thesis by simp
  next
    case (Cons x xs)
    show ?thesis
    proof (cases "is_digit x")
      case False
      with Cons show ?thesis by simp
    next
      case True
      from Suc.prems Cons have len: "length xs \<le> n" by simp
      have "iter (run Digit) (Suc n) (seen, rest, g) =
            iter (run Digit) n (seen @ [x], xs, g) @ [(seen, rest, g)]"
        using Cons True by simp
      also have "\<dots> = map (\<lambda>k. ((seen @ [x]) @ take k xs, drop k xs, g))
                        (rev [0..<Suc (length (takeWhile is_digit xs))]) @ [(seen, rest, g)]"
        using Suc.IH [OF len] by simp
      also have "\<dots> = map (\<lambda>k. (seen @ take k rest, drop k rest, g))
                        (rev [0..<Suc (length (takeWhile is_digit rest))])"
        using Cons True by (simp add: rev_upt_Suc_shift comp_def del: upt_Suc)
      finally show ?thesis .
    qed
  qed
qed

lemma run_plus_digit:
  "run (Plus Digit) (seen, rest, g) =
     map (\<lambda>k. (seen @ take k rest, drop k rest, g))
       (rev [1..<Suc (length (takeWhile is_digit rest))])"
proof (cases rest)
  case Nil
  then show ?thesis by simp
next
  case (Cons x xs)
  show ?thesis
  proof (cases "is_digit x")
    case False
    with Cons show ?thesis by simp
  next
    case True
    have "run (Plus Digit) (seen, rest, g) = iter (run Digit) (length xs) (seen @ [x], xs, g)"
      using Cons True by simp
    also have "\<dots> = map (\<lambda>k. ((seen @ [x]) @ take k xs, drop k xs, g))
                        (rev [0..<Suc (length (takeWhile is_digit xs))])"
      by (rule iter_digit) simp
    also have "\<dots> = map (\<lambda>k. (seen @ take k rest, drop k rest, g))
                        (rev [1..<Suc (length (takeWhile is_digit rest))])"
    proof -
      have "[1..<Suc (Suc (length (takeWhile is_digit xs)))] = map Suc [0..<Suc (length (takeWhile is_digit xs))]"
        by (metis One_nat_def map_Suc_upt)
      then show ?thesis using Cons True by (simp add: rev_map comp_def del: upt_Suc)
    qed
    finally show ?thesis .
  qed
qed

lemma run_lits_CWE:
  "run (lits ''CWE'') (seen, rest, g) =
     (if take 3 rest = ''CWE'' then [(seen @ ''CWE'', drop 3 rest, g)] else [])"
  by (auto split: list.splits)

lemma digit_not_underscore: "is_digit c \<Longrightarrow> c \<noteq> CHR ''_''"
  by (auto simp: is_digit_def)

lemma digit_not_newline: "is_digit c \<Longrightarrow> c \<noteq> newline"
  by (auto simp: is_digit_def newline_def)

lemma drop_in_digits:
  assumes "k < length (takeWhile is_digit r)"
  shows "\<exists>x xs. drop k r = x # xs \<and> is_digit x"
proof -
  from assms have kl: "k < length r"
    by (meson length_takeWhile_le less_le_trans)
  have "is_digit (r ! k)"
    using assms by (metis nth_mem set_takeWhileD takeWhile_nth)
  moreover have "drop k r = r ! k # drop (Suc k) r"
    using kl by (simp add: Cons_nth_drop_Suc)
  ultimately show ?thesis by blast
qed

lemma take_drop_takeWhile:
  "take (length (takeWhile P r)) r = takeWhile P r"
  "drop (length (takeWhile P r)) r = dropWhile P r"
  by (metis append_eq_conv_conj takeWhile_dropWhile_id)+

text \<open>After the greedy run of digits only the longest candidate can be followed by a
  character that is not a digit.\<close>

lemma after_digits:
  assumes "\<And>seen x xs g. is_digit x \<Longrightarrow> f (seen, x # xs, g) = []"
  shows "concat (map f (run (Plus Digit) (seen, r, g))) =
         (if takeWhile is_digit r = [] then []
          else f (seen @ takeWhile is_digit r, dropWhile is_digit r, g))"
proof (cases "takeWhile is_digit r = []")
  case True
  then show ?thesis by (simp add: run_plus_digit del: run.simps)
next
  case False
  define m where "m = length (takeWhile is_digit r)"
  from False have m: "0 < m" by (simp add: m_def)
  then have up: "rev [1..<Suc m] = m # rev [1..<m]" by simp
  have small: "f (seen @ take k r, drop k r, g) = []" if "k \<in> set (rev [1..<m])" for k
  proof -
    from that have "k < m" by simp
    then obtain x xs where "drop k r = x # xs" "is_digit x"
      using drop_in_digits m_def by blast
    then show ?thesis using assms by simp
  qed
  have "concat (map f (run (Plus Digit) (seen, r, g))) =
        concat (map (\<lambda>k. f (seen @ take k r, drop k r, g)) (rev [1..<Suc m]))"
    by (simp add: run_plus_digit m_def comp_def del: upt_Suc run.simps)
  also have "\<dots> = f (seen @ take m r, drop m r, g) @
                    concat (map (\<lambda>k. f (seen @ take k r, drop k r, g)) (rev [1..<m]))"
    by (simp only: up list.map concat.simps)
  also have "concat (map (\<lambda>k. f (seen @ take k r, drop k r, g)) (rev [1..<m])) = []"
    by (rule concat_map_all_Nil) (rule small)
  finally show ?thesis using False by (simp add: m_def take_drop_takeWhile)
qed

lemma iter_last: "iter f n s \<noteq> [] \<and> last (iter f n s) = s"
  by (cases n) simp_all

lemma iter_keeps_group:
  assumes "\<And>s s'. s' \<in> set (f s) \<Longrightarrow> snd (snd s') = snd (snd s)"
  shows "s' \<in> set (iter f n s) \<Longrightarrow> snd (snd s') = snd (snd s)"
proof (induction n arbitrary: s)
  case 0
  then show ?case by simp
next
  case (Suc n)
  from Suc.prems consider "s' = s" | t where "t \<in> set (f s)" "s' \<in> set (iter f n t)"
    by auto
  then show ?case
  proof cases
    case 1
    then show ?thesis by simp
  next
    case 2
    then show ?thesis using Suc.IH assms by metis
  qed
qed

lemma run_Dot_keeps_group: "s' \<in> set (run Dot s) \<Longrightarrow> snd (snd s') = snd (snd s)"
  by (cases s) (auto split: list.splits if_splits)

lemma star_dot_first:
  "\<exists>seen' rest' ms. run (Star Dot) (seen, rest, g) = (seen', rest', g) # ms"
proof -
  let ?l = "iter (run Dot) (length rest) (seen, rest, g)"
  have ne: "?l \<noteq> []" by (simp add: iter_last)
  then obtain m ms where l: "?l = m # ms" by (cases ?l) auto
  then have "m \<in> set ?l" by simp
  then have "snd (snd m) = g"
    using iter_keeps_group [of "run Dot" m "length rest" "(seen, rest, g)"] run_Dot_keeps_group
    by auto
  then show ?thesis using l by (cases m) auto
qed

lemma run_Cat: "run (Cat a b) s = concat (map (run b) (run a s))"
  by simp

lemma run_Or: "run (Or a b) s = run a s @ run b s"
  by simp

lemma run_Bol: "run Bol (seen, rest, g) = (if seen = [] then [(seen, rest, g)] else [])"
  by simp

lemma run_Lit:
  "run (Lit c) (seen, rest, g) =
     (case rest of [] \<Rightarrow> [] | x # xs \<Rightarrow> if x = c then [(seen @ [x], xs, g)] else [])"
  by simp

lemma run_Eol:
  "run Eol (seen, rest, g) = (if rest = [] \<or> rest = [newline] then [(seen, rest, g)] else [])"
  by simp

lemma run_Group:
  "run (Group a) (seen, rest, g) =
     map (\<lambda>(seen', rest', g'). (seen', rest', Some (drop (length seen) seen')))
       (run a (seen, rest, g))"
  by simp

lemma run_category_branch:
  "run (seq [Bol, lits ''CWE'', Group (Plus Digit), Lit CHR ''_'', Star Dot]) ([], name, None) =
     (case cwe_label name of
        None \<Rightarrow> []
      | Some ds \<Rightarrow> run (Star Dot) (''CWE'' @ ds @ ''_'', drop (4 + length ds) name, Some ds))"
proof -
  let ?r = "drop 3 name"
  let ?Z = "Cat (Lit CHR ''_'') (Star Dot)"
  let ?G = "\<lambda>(seen', rest', g'). (seen', rest', Some (drop (length ''CWE'') seen'))"
  let ?F = "\<lambda>s. run ?Z (?G s)"
  have F: "?F (seen, x # xs, g) = []" if "is_digit x" for seen x xs g
    using that digit_not_underscore by (simp add: run_Cat run_Lit del: run.simps)
  have grp: "run (Cat (Group (Plus Digit)) ?Z) (''CWE'', ?r, None) =
        (if takeWhile is_digit ?r = [] then []
         else ?F (''CWE'' @ takeWhile is_digit ?r, dropWhile is_digit ?r, None))"
  proof -
    have "run (Cat (Group (Plus Digit)) ?Z) (''CWE'', ?r, None) =
          concat (map ?F (run (Plus Digit) (''CWE'', ?r, None)))"
      by (simp only: run_Cat run_Group map_map comp_def)
    also have "\<dots> = (if takeWhile is_digit ?r = [] then []
         else ?F (''CWE'' @ takeWhile is_digit ?r, dropWhile is_digit ?r, None))"
      using after_digits [of ?F "''CWE''" ?r None] F by (simp del: run.simps)
    finally show ?thesis .
  qed
  have base: "run (seq [Bol, lits ''CWE'', Group (Plus Digit), Lit CHR ''_'', Star Dot]) ([], name, None) =
        (if take 3 name = ''CWE'' then run (Cat (Group (Plus Digit)) ?Z) (''CWE'', ?r, None) else [])"
    by (simp add: run_Cat run_Bol run_lits_CWE del: run.simps lits.simps)
  have Fval: "?F (''CWE'' @ ds, dw, None) =
        (case dw of [] \<Rightarrow> []
         | x # t \<Rightarrow> if x = CHR ''_'' then run (Star Dot) (''CWE'' @ ds @ ''_'', t, Some ds) else [])"
    for ds dw
    by (simp add: run_Cat run_Lit del: run.simps split: list.splits)
  have all: "run (seq [Bol, lits ''CWE'', Group (Plus Digit), Lit CHR ''_'', Star Dot]) ([], name, None) =
        (if take 3 name = ''CWE'' then
           (if takeWhile is_digit ?r = [] then []
            else (case dropWhile is_digit ?r of [] \<Rightarrow> []
               | x # t \<Rightarrow> if x = CHR ''_''
                   then run (Star Dot) (''CWE'' @ takeWhile is_digit ?r @ ''_'', t, Some (takeWhile is_digit ?r))
                   else []))
         else [])"
  proof (cases "take 3 name = ''CWE''")
    case False
    then show ?thesis by (simp only: base if_False)
  next
    case c: True
    show ?thesis
    proof (cases "takeWhile is_digit ?r = []")
      case True
      then show ?thesis
        by (simp only: base c simp_thms if_True, subst grp, simp only: if_True)
    next
      case False
      then show ?thesis
        by (simp only: base c simp_thms if_True, subst grp, simp only: if_False Fval)
    qed
  qed
  show ?thesis
  proof (cases "cwe_label name")
    case None
    then show ?thesis
      unfolding all
      by (auto simp: cwe_label_def Let_def simp del: run.simps split: list.splits if_splits)
  next
    case (Some ds)
    then have c: "take 3 name = ''CWE''" and ds: "ds = takeWhile is_digit ?r" "ds \<noteq> []"
      and u: "take 1 (dropWhile is_digit ?r) = ''_''"
      by (auto simp: cwe_label_def Let_def split: if_splits)
    from u obtain t where t: "dropWhile is_digit ?r = CHR ''_'' # t"
      by (cases "dropWhile is_digit ?r") auto
    have "?r = ds @ CHR ''_'' # t"
      using t ds by (metis takeWhile_dropWhile_id)
    then have "take 3 name @ drop 3 name = (''CWE'' @ ds @ ''_'') @ t"
      using c by simp
    then have nm: "name = (''CWE'' @ ds @ ''_'') @ t"
      by (simp only: append_take_drop_id)
    have "drop (length (''CWE'' @ ds @ ''_'')) name = t"
      by (subst nm) (rule append_eq_conv_conj [THEN iffD1, OF refl, THEN conjunct2, symmetric])
    then have "drop (4 + length ds) name = t"
      by (simp add: eval_nat_numeral)
    then show ?thesis
      unfolding all using Some c ds t
      by (simp del: run.simps)
  qed
qed

lemma cwe_label_iff: "cwe_label name = Some i \<longleftrightarrow> category_dir name i"
proof
  assume "cwe_label name = Some i"
  then have c: "take 3 name = ''CWE''" and ds: "i = takeWhile is_digit (drop 3 name)" "i \<noteq> []"
      and u: "take 1 (dropWhile is_digit (drop 3 name)) = ''_''"
      by (auto simp: cwe_label_def Let_def split: if_splits)
  from u obtain t where t: "dropWhile is_digit (drop 3 name) = CHR ''_'' # t"
    by (cases "dropWhile is_digit (drop 3 name)") auto
  have "drop 3 name = i @ CHR ''_'' # t"
    using t ds by (metis takeWhile_dropWhile_id)
  then have "name = ''CWE'' @ i @ ''_'' @ t"
    using c by (metis append_Cons append_Nil append_take_drop_id)
  moreover have "list_all is_digit i"
    using ds by (metis list_all_iff set_takeWhileD)
  moreover have "length (''CWE'' @ i @ ''_'') = length i + 4" by simp
  ultimately have "take (length i + 4) name = ''CWE'' @ i @ ''_''"
    by (metis append_assoc append_eq_conv_conj)
  then show "category_dir name i"
    using ds \<open>list_all is_digit i\<close> by (simp add: category_dir_def)
next
  assume a: "category_dir name i"
  then have i: "i \<noteq> []" "list_all is_digit i" and p: "take (length i + 4) name = ''CWE'' @ i @ ''_''"
    by (auto simp: category_dir_def)
  define t where "t = drop (length i + 4) name"
  have name: "name = ''CWE'' @ i @ ''_'' @ t"
    using p t_def by (metis append_assoc append_take_drop_id)
  then have r: "drop 3 name = i @ CHR ''_'' # t" by simp
  have tw: "takeWhile is_digit (i @ CHR ''_'' # t) = i"
    using i by (simp add: takeWhile_tail list_all_iff is_digit_def)
  have dw: "dropWhile is_digit (i @ CHR ''_'' # t) = CHR ''_'' # t"
    using i by (simp add: dropWhile_append3 list_all_iff is_digit_def)
  show "cwe_label name = Some i"
    using i name by (simp add: cwe_label_def Let_def r tw dw)
qed

lemma run_subdivision_branch:
  "run (seq [Lit CHR ''s'', Plus Digit, Eol]) ([], name, None) =
     (if s_name name
      then [(''s'' @ takeWhile is_digit (drop 1 name), dropWhile is_digit (drop 1 name), None)]
      else [])"
proof -
  let ?r = "drop 1 name"
  have E: "run Eol (seen, x # xs, g) = []" if "is_digit x" for seen x xs g
    using that digit_not_newline by (simp add: run_Eol del: run.simps)
  have dig: "concat (map (run Eol) (run (Plus Digit) (''s'', ?r, None))) =
        (if takeWhile is_digit ?r = [] then []
         else run Eol (''s'' @ takeWhile is_digit ?r, dropWhile is_digit ?r, None))"
    using after_digits [of "run Eol" "''s''" ?r None] E by (simp del: run.simps)
  have base: "run (seq [Lit CHR ''s'', Plus Digit, Eol]) ([], name, None) =
        (if take 1 name = ''s'' then concat (map (run Eol) (run (Plus Digit) (''s'', ?r, None))) else [])"
    by (cases name) (simp_all add: run_Cat run_Lit del: run.simps)
  show ?thesis
  proof (cases "take 1 name = ''s''")
    case False
    then show ?thesis by (simp add: base s_name_def Let_def del: run.simps seq.simps)
  next
    case c: True
    show ?thesis
    proof (cases "takeWhile is_digit ?r = []")
      case True
      then show ?thesis
        by (simp only: base c simp_thms if_True, subst dig) (simp add: s_name_def Let_def)
    next
      case False
      then show ?thesis
        using c by (simp only: base c simp_thms if_True, subst dig) (simp add: s_name_def Let_def run_Eol del: run.simps)
    qed
  qed
qed

lemma cwe_label_not_s: "cwe_label name = Some i \<Longrightarrow> \<not> s_name name"
proof -
  assume "cwe_label name = Some i"
  then have "take 3 name = ''CWE''"
    by (simp add: cwe_label_def Let_def split: if_splits)
  then have "take 1 name \<noteq> ''s''"
    by (cases name) auto
  then show ?thesis by (simp add: s_name_def Let_def)
qed

lemma dirs_match:
  "re_match dirs_regexp name =
     (case cwe_label name of
        Some i \<Rightarrow> Some (Some i)
      | None \<Rightarrow> if s_name name then Some None else None)"
proof (cases "cwe_label name")
  case None
  then show ?thesis
    unfolding re_match_def dirs_regexp_def run_Or run_category_branch run_subdivision_branch
    by simp
next
  case (Some i)
  obtain seen' rest' ms where
    "run (Star Dot) (''CWE'' @ i @ ''_'', drop (4 + length i) name, Some i) = (seen', rest', Some i) # ms"
    using star_dot_first by blast
  with Some show ?thesis
    unfolding re_match_def dirs_regexp_def run_Or run_category_branch run_subdivision_branch
    by simp
qed

lemma dropWhile_cases:
  "dropWhile P xs = [] \<longleftrightarrow> list_all P xs"
  by (induction xs) auto

lemma s_name_iff:
  "s_name name \<longleftrightarrow>
     subdivision_dir name \<or> (name \<noteq> [] \<and> last name = newline \<and> subdivision_dir (butlast name))"
proof (cases name)
  case Nil
  then show ?thesis by (simp add: s_name_def subdivision_dir_def)
next
  case (Cons c r)
  let ?tw = "takeWhile is_digit r" and ?dw = "dropWhile is_digit r"
  have r: "r = ?tw @ ?dw" by simp
  have nd: "\<not> is_digit newline" by (simp add: is_digit_def newline_def)
  have A: "(?tw \<noteq> [] \<and> ?dw = []) \<longleftrightarrow> (r \<noteq> [] \<and> list_all is_digit r)"
    by (metis dropWhile_cases r self_append_conv takeWhile_eq_all_conv list_all_iff)
  have B: "(?tw \<noteq> [] \<and> ?dw = [newline]) \<longleftrightarrow>
           (r \<noteq> [] \<and> last r = newline \<and> butlast r \<noteq> [] \<and> list_all is_digit (butlast r))"
  proof
    assume a: "?tw \<noteq> [] \<and> ?dw = [newline]"
    then have "r = ?tw @ [newline]" using r by metis
    then have "butlast r = ?tw" "last r = newline" "r \<noteq> []"
      by (metis butlast_snoc, metis last_snoc, metis snoc_eq_iff_butlast)
    moreover have "list_all is_digit ?tw"
      by (metis list_all_iff set_takeWhileD)
    ultimately show "r \<noteq> [] \<and> last r = newline \<and> butlast r \<noteq> [] \<and> list_all is_digit (butlast r)"
      using a by simp
  next
    assume a: "r \<noteq> [] \<and> last r = newline \<and> butlast r \<noteq> [] \<and> list_all is_digit (butlast r)"
    then have rr: "r = butlast r @ [newline]" by (metis append_butlast_last_id)
    have "takeWhile is_digit (butlast r @ [newline]) = butlast r"
      using a nd by (simp add: takeWhile_tail list_all_iff)
    moreover have "dropWhile is_digit (butlast r @ [newline]) = [newline]"
      using a nd by (simp add: dropWhile_append3 list_all_iff)
    ultimately show "?tw \<noteq> [] \<and> ?dw = [newline]"
      using a rr by metis
  qed
  have "s_name name \<longleftrightarrow> c = CHR ''s'' \<and> ((?tw \<noteq> [] \<and> ?dw = []) \<or> (?tw \<noteq> [] \<and> ?dw = [newline]))"
    using Cons by (auto simp: s_name_def Let_def)
  also have "\<dots> \<longleftrightarrow> c = CHR ''s'' \<and> ((r \<noteq> [] \<and> list_all is_digit r) \<or>
      (r \<noteq> [] \<and> last r = newline \<and> butlast r \<noteq> [] \<and> list_all is_digit (butlast r)))"
    by (simp only: A B)
  also have "\<dots> \<longleftrightarrow> subdivision_dir name \<or> (name \<noteq> [] \<and> last name = newline \<and> subdivision_dir (butlast name))"
    using Cons by (auto simp: subdivision_dir_def split: list.splits)
  finally show ?thesis .
qed

section \<open>Discovery: which directories are entered\<close>

declare find_all_testcases_rec.simps [simp del] visit_child.simps [simp del]

lemma rec_events_head:
  "\<exists>ev. snd (find_all_testcases_rec sd l dre fre inc exc g) = ListDir sd # ev"
  by (simp add: find_all_testcases_rec.simps Let_def)

lemma dir_decision_label:
  "i \<noteq> [] \<Longrightarrow>
   dir_decision (Some i) inc exc = ((i \<in> inc \<or> inc = {}) \<and> i \<notin> exc, i \<in> inc \<or> inc = {})"
  by (auto simp: dir_decision_def truthy_def)

lemma dir_decision_None: "dir_decision None inc exc = (True, False)"
  by (simp add: dir_decision_def truthy_def)

text \<open>The loop body on a directory, on a file and on anything else.\<close>

lemma visit_dir:
  "visit_child sd (name, Dir sub) dre fre inc exc g =
     (case re_match dre name of
        None \<Rightarrow> ([], [])
      | Some m \<Rightarrow>
          if fst (dir_decision m inc exc) then
            (fst (find_all_testcases_rec (path_join sd name) sub dre fre inc exc g),
             snd (find_all_testcases_rec (path_join sd name) sub dre fre inc exc g)
               @ (if snd (dir_decision m inc exc)
                  then [found_msg (case m of None \<Rightarrow> [] | Some l \<Rightarrow> l)
                         (length (fst (find_all_testcases_rec (path_join sd name) sub
                                         dre fre inc exc g)))]
                  else []))
          else ([], []))"
  by (simp add: visit_child.simps Let_def split: option.splits prod.splits)

lemma visit_file:
  "visit_child sd (name, File) dre fre inc exc g =
     (case re_match fre name of
        None \<Rightarrow> ([], [])
      | Some m \<Rightarrow> if name = hard_excluded \<and> g then ([], [excluding_msg name])
                  else ([path_join sd name], []))"
  by (simp add: visit_child.simps Let_def split: option.splits)

lemma visit_other: "visit_child sd (name, Other) dre fre inc exc g = ([], [])"
  by (simp add: visit_child.simps)

lemma category_match: "category_dir name i \<Longrightarrow> re_match dirs_regexp name = Some (Some i)"
  by (simp add: dirs_match cwe_label_iff [symmetric])

text \<open>
  Claim C1. When the walk meets a directory whose name has the form of a category
  directory with label \<open>i\<close>, it lists that directory (recurses into it) if and only if
  the include set is empty or contains \<open>i\<close>, and the exclude set does not contain \<open>i\<close>.
  So a label in both sets is not entered.
\<close>

theorem category_dir_recursed_iff:
  assumes "category_dir name i"
  shows "ListDir (path_join search_dir name)
           \<in> set (snd (visit_child search_dir (name, Dir sub) dirs_regexp files_re
                          cwes_include cwes_exclude for_gcc))
         \<longleftrightarrow> (cwes_include = {} \<or> i \<in> cwes_include) \<and> i \<notin> cwes_exclude"
proof -
  from assms have ne: "i \<noteq> []" by (simp add: category_dir_def)
  obtain ev where ev: "snd (find_all_testcases_rec (path_join search_dir name) sub dirs_regexp
      files_re cwes_include cwes_exclude for_gcc) = ListDir (path_join search_dir name) # ev"
    using rec_events_head by blast
  show ?thesis
    using ev by (auto simp: visit_dir category_match [OF assms] dir_decision_label [OF ne])
qed

theorem category_dir_recursed_iff_witness:
  "category_dir ''CWE78_OS_Command_Injection'' ''78'' \<and>
   ListDir (path_join ''/t'' ''CWE78_OS_Command_Injection'')
     \<notin> set (snd (visit_child ''/t'' (''CWE78_OS_Command_Injection'', Dir [])
                    dirs_regexp files_regexp_cpp {''78'', ''79''} {''78''} True)) \<and>
   ListDir (path_join ''/t'' ''CWE78_OS_Command_Injection'')
     \<in> set (snd (visit_child ''/t'' (''CWE78_OS_Command_Injection'', Dir [])
                    dirs_regexp files_regexp_cpp {''78'', ''79''} {''80''} True))"
proof -
  have h: "category_dir ''CWE78_OS_Command_Injection'' ''78''"
    by (simp add: category_dir_def is_digit_def)
  show ?thesis
    using h
      category_dir_recursed_iff [OF h, of "''/t''" "[]" files_regexp_cpp "{''78'', ''79''}" "{''78''}" True]
      category_dir_recursed_iff [OF h, of "''/t''" "[]" files_regexp_cpp "{''78'', ''79''}" "{''80''}" True]
    by simp
qed

section \<open>Discovery: the hard-excluded file\<close>

lemma rec_results:
  "fst (find_all_testcases_rec sd l dre fre inc exc g) =
     concat (map (\<lambda>entry. fst (visit_child sd entry dre fre inc exc g)) l)"
  "snd (find_all_testcases_rec sd l dre fre inc exc g) =
     ListDir sd # concat (map (\<lambda>entry. snd (visit_child sd entry dre fre inc exc g)) l)"
  by (simp_all add: find_all_testcases_rec.simps Let_def comp_def)

lemma rec_results_mem:
  "entry \<in> set l \<Longrightarrow> p \<in> set (fst (visit_child sd entry dre fre inc exc g)) \<Longrightarrow>
   p \<in> set (fst (find_all_testcases_rec sd l dre fre inc exc g))"
  by (auto simp: rec_results)

lemma rec_events_mem:
  "entry \<in> set l \<Longrightarrow> e \<in> set (snd (visit_child sd entry dre fre inc exc g)) \<Longrightarrow>
   e \<in> set (snd (find_all_testcases_rec sd l dre fre inc exc g))"
  by (auto simp: rec_results)

lemma hard_excluded_matches: "re_match files_regexp_cpp hard_excluded = Some (Some ''cpp'')"
  unfolding hard_excluded_def by code_simp

lemma hard_excluded_valid: "valid_name hard_excluded"
  by (simp add: valid_name_def hard_excluded_def)

lemma path_of_Nil: "path_of base [] f = path_join base f"
  by (simp add: path_of_def)

lemma path_of_Cons: "path_of base (d # ds) f = path_of (path_join base d) ds f"
  by (simp add: path_of_def)

lemma located_NilD:
  "located inc exc tree [] f \<Longrightarrow> (f, File) \<in> set tree"
  by (auto simp: list_ex_iff)

lemma located_ConsD:
  assumes "located inc exc tree (d # ds) f"
  shows "\<exists>sub g. (d, Dir sub) \<in> set tree \<and> re_match dirs_regexp d = Some g \<and>
           fst (dir_decision g inc exc) \<and> located inc exc sub ds f"
proof -
  from assms obtain n node where mem: "(n, node) \<in> set tree" and n: "n = d"
    and rest: "(case node of
            Dir sub \<Rightarrow>
              (case re_match dirs_regexp d of
                 None \<Rightarrow> False
               | Some g \<Rightarrow> fst (dir_decision g inc exc) \<and> located inc exc sub ds f)
          | _ \<Rightarrow> False)"
    by (auto simp: list_ex_iff)
  from rest obtain sub where node: "node = Dir sub"
    by (cases node) auto
  from rest node obtain g where "re_match dirs_regexp d = Some g"
    "fst (dir_decision g inc exc)" "located inc exc sub ds f"
    by (cases "re_match dirs_regexp d") auto
  with mem n node show ?thesis by blast
qed

lemma located_results:
  "located inc exc tree ds hard_excluded \<Longrightarrow>
   path_of base ds hard_excluded
     \<in> set (fst (find_all_testcases_rec base tree dirs_regexp files_regexp_cpp inc exc False))"
proof (induction ds arbitrary: base tree)
  case Nil
  then have "(hard_excluded, File) \<in> set tree"
    by (rule located_NilD)
  moreover have "path_join base hard_excluded
      \<in> set (fst (visit_child base (hard_excluded, File) dirs_regexp files_regexp_cpp inc exc False))"
    by (simp add: visit_file hard_excluded_matches)
  ultimately show ?case
    unfolding path_of_Nil by (rule rec_results_mem)
next
  case (Cons d ds)
  from located_ConsD [OF Cons.prems] obtain sub g where
    mem: "(d, Dir sub) \<in> set tree" and m: "re_match dirs_regexp d = Some g"
    and dec: "fst (dir_decision g inc exc)" and loc: "located inc exc sub ds hard_excluded"
    by blast
  have "path_of (path_join base d) ds hard_excluded
      \<in> set (fst (find_all_testcases_rec (path_join base d) sub dirs_regexp files_regexp_cpp inc exc False))"
    using Cons.IH [OF loc] .
  then have "path_of (path_join base d) ds hard_excluded
      \<in> set (fst (visit_child base (d, Dir sub) dirs_regexp files_regexp_cpp inc exc False))"
    using m dec by (simp add: visit_dir)
  with mem show ?case
    unfolding path_of_Cons by (rule rec_results_mem)
qed

lemma located_logged:
  "located inc exc tree ds hard_excluded \<Longrightarrow>
   excluding_msg hard_excluded
     \<in> set (snd (find_all_testcases_rec base tree dirs_regexp files_regexp_cpp inc exc True))"
proof (induction ds arbitrary: base tree)
  case Nil
  then have "(hard_excluded, File) \<in> set tree"
    by (rule located_NilD)
  moreover have "excluding_msg hard_excluded
      \<in> set (snd (visit_child base (hard_excluded, File) dirs_regexp files_regexp_cpp inc exc True))"
    by (simp add: visit_file hard_excluded_matches)
  ultimately show ?case
    by (rule rec_events_mem)
next
  case (Cons d ds)
  from located_ConsD [OF Cons.prems] obtain sub g where
    mem: "(d, Dir sub) \<in> set tree" and m: "re_match dirs_regexp d = Some g"
    and dec: "fst (dir_decision g inc exc)" and loc: "located inc exc sub ds hard_excluded"
    by blast
  have "excluding_msg hard_excluded
      \<in> set (snd (find_all_testcases_rec (path_join base d) sub dirs_regexp files_regexp_cpp inc exc True))"
    using Cons.IH [OF loc] .
  then have "excluding_msg hard_excluded
      \<in> set (snd (visit_child base (d, Dir sub) dirs_regexp files_regexp_cpp inc exc True))"
    using m dec by (simp add: visit_dir)
  with mem show ?case
    by (rule rec_events_mem)
qed

lemma takeWhile_stop:
  "\<forall>x\<in>set xs. P x \<Longrightarrow> ys = [] \<or> \<not> P (hd ys) \<Longrightarrow> takeWhile P (xs @ ys) = xs"
  by (cases ys) (auto simp: takeWhile_tail)

lemma basename_append:
  assumes "CHR ''/'' \<notin> set c" and "d = [] \<or> last d = CHR ''/''"
  shows "basename (d @ c) = c"
proof -
  have "takeWhile (\<lambda>x. x \<noteq> CHR ''/'') (rev c @ rev d) = rev c"
  proof (rule takeWhile_stop)
    show "\<forall>x\<in>set (rev c). x \<noteq> CHR ''/''" using assms(1) by auto
    show "rev d = [] \<or> \<not> hd (rev d) \<noteq> CHR ''/''"
      using assms(2) by (auto simp: hd_rev)
  qed
  then show ?thesis by (simp add: basename_def)
qed

lemma basename_join: "valid_name c \<Longrightarrow> basename (path_join d c) = c"
proof -
  assume v: "valid_name c"
  then have c: "c \<noteq> []" "CHR ''/'' \<notin> set c" by (auto simp: valid_name_def)
  have hd: "take 1 c \<noteq> ''/''"
    using c by (cases c) auto
  have 1: "basename (d @ c) = c" if "d = [] \<or> last d = CHR ''/''"
    using basename_append [OF c(2) that] .
  have 2: "basename ((d @ ''/'') @ c) = c"
    by (rule basename_append [OF c(2)]) simp
  show ?thesis
    using hd 1 2 by (auto simp: path_join_def)
qed

lemma basename_path_of: "valid_name f \<Longrightarrow> basename (path_of base ds f) = f"
  by (simp add: path_of_def basename_join)

declare valid_tree.simps [simp del]

lemma valid_tree_entry:
  "valid_tree l \<Longrightarrow> (n, node) \<in> set l \<Longrightarrow> valid_name n"
  "valid_tree l \<Longrightarrow> (n, Dir sub) \<in> set l \<Longrightarrow> valid_tree sub"
  by (subst (asm) valid_tree.simps, auto simp: list_all_iff)+

lemma gcc_results_basename:
  "for_gcc \<longrightarrow> valid_tree listing \<longrightarrow>
     (\<forall>p\<in>set (fst (find_all_testcases_rec search_dir listing dirs_re files_re cwes_include
                       cwes_exclude for_gcc)). basename p \<noteq> hard_excluded)"
  "for_gcc' \<longrightarrow> valid_name (fst entry) \<longrightarrow> (\<forall>sub. snd entry = Dir sub \<longrightarrow> valid_tree sub) \<longrightarrow>
     (\<forall>p\<in>set (fst (visit_child search_dir' entry dirs_re' files_re' cwes_include'
                       cwes_exclude' for_gcc')). basename p \<noteq> hard_excluded)"
proof (induction search_dir listing dirs_re files_re cwes_include cwes_exclude for_gcc
    and search_dir' entry dirs_re' files_re' cwes_include' cwes_exclude' for_gcc'
    rule: find_all_testcases_rec_visit_child.induct)
  case (1 search_dir listing dirs_re files_re cwes_include cwes_exclude for_gcc)
  show ?case
  proof (intro impI ballI)
    fix p
    assume g: for_gcc and v: "valid_tree listing"
      and p: "p \<in> set (fst (find_all_testcases_rec search_dir listing dirs_re files_re
                 cwes_include cwes_exclude for_gcc))"
    from p obtain entry where e: "entry \<in> set listing"
      and pe: "p \<in> set (fst (visit_child search_dir entry dirs_re files_re cwes_include
                 cwes_exclude for_gcc))"
      by (auto simp: rec_results)
    obtain n node where en: "entry = (n, node)" by (cases entry)
    have "valid_name (fst entry)" using v e en valid_tree_entry(1) by auto
    moreover have "\<forall>sub. snd entry = Dir sub \<longrightarrow> valid_tree sub"
      using v e en valid_tree_entry(2) by auto
    ultimately show "basename p \<noteq> hard_excluded"
      using "1.IH" [OF e] g pe by auto
  qed
next
  case (2 search_dir child node dirs_re files_re cwes_include cwes_exclude for_gcc)
  show ?case
  proof (intro impI ballI allI)
    fix p
    assume g: for_gcc and vn: "valid_name (fst (child, node))"
      and vs: "\<forall>sub. snd (child, node) = Dir sub \<longrightarrow> valid_tree sub"
      and p: "p \<in> set (fst (visit_child search_dir (child, node) dirs_re files_re cwes_include
                 cwes_exclude for_gcc))"
    show "basename p \<noteq> hard_excluded"
    proof (cases node)
      case File
      with p g have "p = path_join search_dir child" "child \<noteq> hard_excluded"
        by (auto simp: visit_file split: option.splits if_splits)
      then show ?thesis using vn by (simp add: basename_join)
    next
      case Other
      with p show ?thesis by (simp add: visit_other)
    next
      case (Dir sub)
      with p obtain m where m: "re_match dirs_re child = Some m"
        and d: "fst (dir_decision m cwes_include cwes_exclude)"
        and pr: "p \<in> set (fst (find_all_testcases_rec (path_join search_dir child) sub dirs_re
                    files_re cwes_include cwes_exclude for_gcc))"
        by (auto simp: visit_dir split: option.splits if_splits)
      have "valid_tree sub" using vs Dir by simp
      then show ?thesis
        using "2.IH" [OF refl Dir m refl prod.collapse d] g pr by auto
    qed
  qed
qed

lemma valid_tree_Nil: "valid_tree []"
  using valid_tree.simps [of "[]"] by simp

lemma valid_tree_Cons:
  "valid_tree ((n, node) # l) \<longleftrightarrow>
     valid_name n \<and> (case node of Dir sub \<Rightarrow> valid_tree sub | _ \<Rightarrow> True) \<and> valid_tree l"
  using valid_tree.simps [of "(n, node) # l"] valid_tree.simps [of l] by simp

text \<open>
  Claim C6. For the language \<open>cpp\<close> and a tree in which the file
  \<open>CWE397_Throw_Generic_Exception__declare_dotdotdot_w32_01.cpp\<close> lies where the walk
  reaches it: discovery succeeds; without \<open>--cl\<close> (the gcc convention) the path of the
  file is not among the results and the reason is printed; with \<open>--cl\<close> the path is among
  the results.
\<close>

theorem hard_excluded_file:
  assumes "language a = ''cpp''" and "valid_tree tree"
    and "located (cwe_set (cwes a)) (cwe_set (exclude a)) tree ds hard_excluded"
  shows "\<not> isl (snd (find_all_testcases a tree)) \<and>
         (if truthy (cl a)
          then path_of (test_cases_dir a) ds hard_excluded
                 \<in> set (projr (snd (find_all_testcases a tree)))
          else path_of (test_cases_dir a) ds hard_excluded
                 \<notin> set (projr (snd (find_all_testcases a tree))) \<and>
               excluding_msg hard_excluded \<in> set (fst (find_all_testcases a tree)))"
proof -
  let ?R = "\<lambda>g. find_all_testcases_rec (test_cases_dir a) tree dirs_regexp files_regexp_cpp
              (cwe_set (cwes a)) (cwe_set (exclude a)) g"
  have res: "snd (find_all_testcases a tree) = Inr (fst (?R (\<not> truthy (cl a))))"
    using assms(1) by (simp add: find_all_testcases_def Let_def split: prod.splits)
  have evs: "set (snd (?R (\<not> truthy (cl a)))) \<subseteq> set (fst (find_all_testcases a tree))"
    using assms(1) by (auto simp: find_all_testcases_def Let_def split: prod.splits)
  show ?thesis
  proof (cases "truthy (cl a)")
    case True
    then show ?thesis
      using located_results [OF assms(3), of "test_cases_dir a"] by (simp add: res)
  next
    case False
    have "basename (path_of (test_cases_dir a) ds hard_excluded) = hard_excluded"
      by (rule basename_path_of [OF hard_excluded_valid])
    then have "path_of (test_cases_dir a) ds hard_excluded \<notin> set (fst (?R True))"
      using gcc_results_basename(1) [of True tree "test_cases_dir a"] assms(2) by blast
    moreover have "excluding_msg hard_excluded \<in> set (snd (?R True))"
      by (rule located_logged [OF assms(3)])
    ultimately show ?thesis
      using False evs by (auto simp: res)
  qed
qed

lemma example_tree_valid: "valid_tree example_tree"
  by (simp add: example_tree_def valid_tree_Cons valid_tree_Nil valid_name_def hard_excluded_def)

lemma cwe_set_None: "cwe_set None = {}"
  by (simp add: cwe_set_def truthy_def)

lemma example_located:
  "located {} {} example_tree [''CWE397_Throw_Generic_Exception'', ''s01''] hard_excluded"
  by (simp add: example_tree_def dirs_match cwe_label_def s_name_def is_digit_def
      dir_decision_def truthy_def Let_def)

theorem hard_excluded_file_witness:
  "language example_args = ''cpp'' \<and> valid_tree example_tree \<and>
   located (cwe_set (cwes example_args)) (cwe_set (exclude example_args)) example_tree
     [''CWE397_Throw_Generic_Exception'', ''s01''] hard_excluded \<and>
   \<not> truthy (cl example_args) \<and>
   path_of (test_cases_dir example_args) [''CWE397_Throw_Generic_Exception'', ''s01''] hard_excluded
     \<notin> set (projr (snd (find_all_testcases example_args example_tree))) \<and>
   excluding_msg hard_excluded \<in> set (fst (find_all_testcases example_args example_tree)) \<and>
   truthy (cl (example_args\<lparr>cl := Some ''cl''\<rparr>)) \<and>
   path_of (test_cases_dir example_args) [''CWE397_Throw_Generic_Exception'', ''s01''] hard_excluded
     \<in> set (projr (snd (find_all_testcases (example_args\<lparr>cl := Some ''cl''\<rparr>) example_tree)))"
proof -
  let ?b = "example_args\<lparr>cl := Some ''cl''\<rparr>"
  have l: "language example_args = ''cpp''" "language ?b = ''cpp''"
    by (simp_all add: example_args_def)
  have loc: "located (cwe_set (cwes example_args)) (cwe_set (exclude example_args)) example_tree
     [''CWE397_Throw_Generic_Exception'', ''s01''] hard_excluded"
    using example_located by (simp add: example_args_def cwe_set_None)
  have loc': "located (cwe_set (cwes ?b)) (cwe_set (exclude ?b)) example_tree
     [''CWE397_Throw_Generic_Exception'', ''s01''] hard_excluded"
    using example_located by (simp add: example_args_def cwe_set_None)
  have t: "\<not> truthy (cl example_args)" "truthy (cl ?b)"
    by (simp_all add: example_args_def truthy_def)
  have d: "test_cases_dir ?b = test_cases_dir example_args" by simp
  show ?thesis
    using hard_excluded_file [OF l(1) example_tree_valid loc]
      hard_excluded_file [OF l(2) example_tree_valid loc'] l loc t example_tree_valid
    by (simp only: d if_True if_False simp_thms)
qed

section \<open>Discovery: names that are not entered\<close>

text \<open>
  A directory whose name is neither a category name nor a subdivision name is skipped,
  unless it is a subdivision name followed by one line feed.
\<close>

lemma unmatched_dir_skipped:
  assumes "\<forall>i. \<not> category_dir name i" and "\<not> subdivision_dir name"
    and "\<not> (name \<noteq> [] \<and> last name = newline \<and> subdivision_dir (butlast name))"
  shows "visit_child search_dir (name, Dir sub) dirs_regexp files_re cwes_include cwes_exclude
           for_gcc = ([], [])"
proof -
  have "cwe_label name = None"
    using assms(1) cwe_label_iff by (cases "cwe_label name") auto
  moreover have "\<not> s_name name"
    using assms(2,3) s_name_iff by blast
  ultimately show ?thesis by (simp add: visit_dir dirs_match)
qed

lemma decoys_skipped:
  "visit_child sd (''CACHE_temp'', Dir sub) dirs_regexp fre inc exc g = ([], [])"
  "visit_child sd (''antbuild'', Dir sub) dirs_regexp fre inc exc g = ([], [])"
  "visit_child sd (''s01foo'', Dir sub) dirs_regexp fre inc exc g = ([], [])"
  by (simp_all add: visit_dir dirs_match cwe_label_def s_name_def is_digit_def Let_def newline_def)

text \<open>
  Claim C7. The claim is that a directory is never entered when its name is neither a
  category name nor \<open>s\<close> followed only by digits. The directory named \<open>s01\<close> plus a
  line feed is neither, yet the walk lists it and returns the source file inside: the
  \<open>$\<close> of the pattern also matches before a final line feed.
\<close>

theorem newline_subdivision_entered:
  "\<not> subdivision_dir (''s01'' @ [newline]) \<and>
   cwe_label (''s01'' @ [newline]) = None \<and>
   visit_child ''/t'' (''s01'' @ [newline], Dir [(''CWE1_a.c'', File)]) dirs_regexp files_regexp_cpp
     {} {} True
   = ([path_join (path_join ''/t'' (''s01'' @ [newline])) ''CWE1_a.c''],
      [ListDir (path_join ''/t'' (''s01'' @ [newline]))])"
  by code_simp

lemma split_comma_single: "CHR '','' \<notin> set e \<Longrightarrow> split_comma e = [e]"
  by (induction e) auto

lemma cwe_set_single: "e \<noteq> [] \<Longrightarrow> CHR '','' \<notin> set e \<Longrightarrow> cwe_set (Some e) = {e}"
  by (simp add: cwe_set_def truthy_def split_comma_single)

text \<open>
  Claim C10. A category directory with label \<open>i\<close> is matched by an entry \<open>e\<close> of
  \<open>--cwes\<close> or \<open>--exclude\<close> exactly when \<open>i\<close> and \<open>e\<close> are the same text: as the only
  include entry, \<open>e\<close> lets the directory in iff \<open>i = e\<close>; as the only exclude entry it
  keeps the directory out iff \<open>i = e\<close>. So \<open>078\<close> does not match \<open>CWE78_...\<close>, nor
  \<open>78\<close> \<open>CWE078_...\<close>.
\<close>

theorem label_matching_is_textual:
  assumes "category_dir name i" and "e \<noteq> []" and "CHR '','' \<notin> set e"
  shows "(ListDir (path_join search_dir name)
            \<in> set (snd (visit_child search_dir (name, Dir sub) dirs_regexp files_re
                           (cwe_set (Some e)) (cwe_set None) for_gcc))
          \<longleftrightarrow> i = e) \<and>
         (ListDir (path_join search_dir name)
            \<in> set (snd (visit_child search_dir (name, Dir sub) dirs_regexp files_re
                           (cwe_set None) (cwe_set (Some e)) for_gcc))
          \<longleftrightarrow> i \<noteq> e)"
proof -
  from assms(1) have ne: "i \<noteq> []" by (simp add: category_dir_def)
  obtain ev where ev: "snd (find_all_testcases_rec (path_join search_dir name) sub dirs_regexp
      files_re (cwe_set (Some e)) (cwe_set None) for_gcc) = ListDir (path_join search_dir name) # ev"
    using rec_events_head by blast
  obtain ev' where ev': "snd (find_all_testcases_rec (path_join search_dir name) sub dirs_regexp
      files_re (cwe_set None) (cwe_set (Some e)) for_gcc) = ListDir (path_join search_dir name) # ev'"
    using rec_events_head by blast
  have s: "cwe_set (Some e) = {e}" "cwe_set None = {}"
    using assms(2,3) by (simp_all add: cwe_set_single cwe_set_None)
  show ?thesis
    using ev ev' unfolding s
    by (auto simp: visit_dir category_match [OF assms(1)] dir_decision_label [OF ne])
qed

theorem label_matching_is_textual_witness:
  "category_dir ''CWE78_OS_Command_Injection'' ''78'' \<and> ''078'' \<noteq> [] \<and> CHR '','' \<notin> set ''078'' \<and>
   ListDir (path_join ''/t'' ''CWE78_OS_Command_Injection'')
     \<notin> set (snd (visit_child ''/t'' (''CWE78_OS_Command_Injection'', Dir []) dirs_regexp
                    files_regexp_cpp (cwe_set (Some ''078'')) (cwe_set None) True)) \<and>
   ListDir (path_join ''/t'' ''CWE78_OS_Command_Injection'')
     \<in> set (snd (visit_child ''/t'' (''CWE78_OS_Command_Injection'', Dir []) dirs_regexp
                    files_regexp_cpp (cwe_set None) (cwe_set (Some ''078'')) True)) \<and>
   category_dir ''CWE078_OS_Command_Injection'' ''078'' \<and> ''78'' \<noteq> [] \<and> CHR '','' \<notin> set ''78'' \<and>
   ListDir (path_join ''/t'' ''CWE078_OS_Command_Injection'')
     \<notin> set (snd (visit_child ''/t'' (''CWE078_OS_Command_Injection'', Dir []) dirs_regexp
                    files_regexp_cpp (cwe_set (Some ''78'')) (cwe_set None) True))"
proof -
  have h1: "category_dir ''CWE78_OS_Command_Injection'' ''78''"
    and h2: "category_dir ''CWE078_OS_Command_Injection'' ''078''"
    by (simp_all add: category_dir_def is_digit_def)
  have e1: "''078'' \<noteq> []" "CHR '','' \<notin> set ''078''" and e2: "''78'' \<noteq> []" "CHR '','' \<notin> set ''78''"
    by simp_all
  show ?thesis
    using h1 h2 e1 e2
      label_matching_is_textual [OF h1 e1, of "''/t''" "[]" files_regexp_cpp True]
      label_matching_is_textual [OF h2 e2, of "''/t''" "[]" files_regexp_cpp True]
    by simp
qed

section \<open>The thread pool: capacity and errors\<close>

declare str_nat.simps [simp del]

lemma filter_snd_update:
  "i < length xs \<Longrightarrow> snd (xs ! i) \<Longrightarrow>
   Suc (length (filter snd (xs[i := (a, False)]))) = length (filter snd xs)"
proof (induction xs arbitrary: i)
  case Nil
  then show ?case by simp
next
  case (Cons x xs)
  then show ?case by (cases i) auto
qed

lemma start_job_slots:
  "start_job job p = Some p' \<Longrightarrow> executing p' + slots p' = executing p + slots p"
  by (auto simp: start_job_def executing_def split: if_splits)

lemma do_job_end_slots:
  "do_job_end i outcome p = Some p' \<Longrightarrow> executing p' + slots p' = executing p + slots p"
  using filter_snd_update [of i "outstanding_jobs p" "fst (outstanding_jobs p ! i)"]
  by (auto simp: do_job_end_def executing_def split: if_splits)

lemma pool_step_slots:
  "pool_step act p = Some p' \<Longrightarrow> executing p' + slots p' = executing p + slots p"
  by (cases act) (auto simp: pool_step_def start_job_slots do_job_end_slots)

lemma pool_run_slots:
  "pool_run acts p = Some p' \<Longrightarrow> executing p' + slots p' = executing p + slots p"
proof (induction acts arbitrary: p)
  case Nil
  then show ?case by simp
next
  case (Cons act acts)
  then obtain q where q: "pool_step act p = Some q" and r: "pool_run acts q = Some p'"
    by (auto split: option.splits)
  show ?case using Cons.IH [OF r] pool_step_slots [OF q] by simp
qed

text \<open>
  Claim C9. From a pool of capacity \<open>n \<ge> 1\<close>, whatever jobs are submitted and in
  whatever order the threads end, the number of threads still running never exceeds
  \<open>n\<close>: running threads and free slots always add up to \<open>n\<close>.
\<close>

theorem pool_capacity_bound:
  assumes "1 \<le> n" and "pool_run acts (Jobs n) = Some p"
  shows "executing p \<le> nat n \<and> executing p + slots p = nat n"
  using pool_run_slots [OF assms(2)] by (simp add: Jobs_def executing_def)

theorem pool_capacity_bound_witness:
  "(1::int) \<le> 2 \<and>
   pool_run [Submit ''a'', Submit ''b'', End 0 None, Submit ''c''] (Jobs 2)
     = Some \<lparr>slots = 0, outstanding_jobs = [(''a'', False), (''b'', True), (''c'', True)], errors = []\<rparr> \<and>
   executing \<lparr>slots = 0, outstanding_jobs = [(''a'', False), (''b'', True), (''c'', True)], errors = []\<rparr> \<le> nat 2 \<and>
   pool_run [Submit ''a'', Submit ''b'', Submit ''c''] (Jobs 2) = None"
proof -
  have h: "(1::int) \<le> 2" by simp
  have r: "pool_run [Submit ''a'', Submit ''b'', End 0 None, Submit ''c''] (Jobs 2)
     = Some \<lparr>slots = 0, outstanding_jobs = [(''a'', False), (''b'', True), (''c'', True)], errors = []\<rparr>"
    by (simp add: pool_step_def start_job_def do_job_end_def Jobs_def)
  have b: "pool_run [Submit ''a'', Submit ''b'', Submit ''c''] (Jobs 2) = (None :: string jobs option)"
    by (simp add: pool_step_def start_job_def do_job_end_def Jobs_def)
  show ?thesis
    using pool_capacity_bound [OF h r] h r b by simp
qed

lemma pool_step_errors:
  "pool_step act p = Some p' \<Longrightarrow> errors p' = errors p @ failures [act]"
  by (cases act)
     (auto simp: pool_step_def start_job_def do_job_end_def failures_def
           split: if_splits option.splits)

lemma failures_Cons: "failures (act # acts) = failures [act] @ failures acts"
  by (simp add: failures_def)

lemma pool_run_errors:
  "pool_run acts p = Some p' \<Longrightarrow> errors p' = errors p @ failures acts"
proof (induction acts arbitrary: p)
  case Nil
  then show ?case by (simp add: failures_def)
next
  case (Cons act acts)
  then obtain q where q: "pool_step act p = Some q" and r: "pool_run acts q = Some p'"
    by (auto split: option.splits)
  show ?case
    using Cons.IH [OF r] pool_step_errors [OF q] failures_Cons [of act acts] by simp
qed

lemma str_nat_1: "str_nat (Suc 0) = ''1''"
  by (simp add: str_nat.simps digit_char_def)

text \<open>
  Claim C4. In every state the pool reaches: once a job has raised, \<open>has_errors\<close> is
  true; while a thread is still running, \<open>wait_jobs\<close> blocks, whether or not a job has
  raised; and when all threads have ended, \<open>wait_jobs\<close> returns normally if no job
  raised, and if exactly one job raised it prints the count 1 and raises.
\<close>

theorem wait_jobs_outcome:
  assumes "pool_run acts (Jobs n) = Some p"
  shows "(failures acts \<noteq> [] \<longrightarrow> has_errors p) \<and>
         (list_ex snd (outstanding_jobs p) \<longrightarrow> wait_jobs p = None) \<and>
         (0 < executing p \<longrightarrow> wait_jobs p = None) \<and>
         (\<not> list_ex snd (outstanding_jobs p) \<longrightarrow>
            (failures acts = [] \<longrightarrow> wait_jobs p = Some ([], Inr ())) \<and>
            (length (failures acts) = 1 \<longrightarrow>
               wait_jobs p =
                 Some ([Print [Str ''*** exceptions occurred in 1 threads:''],
                        Print [ExnList (failures acts)], Print [Str []]],
                       Inl (Exception ''Exception in thread(s).''))))"
proof -
  have e: "errors p = failures acts"
    using pool_run_errors [OF assms] by (simp add: Jobs_def)
  have r: "0 < executing p \<Longrightarrow> list_ex snd (outstanding_jobs p)"
    by (auto simp: executing_def list_ex_iff filter_empty_conv)
  show ?thesis
    using r by (auto simp: has_errors_def wait_jobs_def e str_nat_1)
qed

theorem wait_jobs_outcome_witness:
  "pool_run [Submit ''a'', Submit ''b'', End 1 None, End 0 None] (Jobs 2)
     = Some \<lparr>slots = 2, outstanding_jobs = [(''a'', False), (''b'', False)], errors = []\<rparr> \<and>
   failures [Submit ''a'', Submit ''b'', End 1 None, End 0 None] = [] \<and>
   wait_jobs \<lparr>slots = 2, outstanding_jobs = [(''a'', False), (''b'', False)], errors = []\<rparr>
     = Some ([], Inr ()) \<and>
   pool_run [Submit ''a'', Submit ''b'', End 0 (Some (Exception ''x'')), End 1 None] (Jobs 2)
     = Some \<lparr>slots = 2, outstanding_jobs = [(''a'', False), (''b'', False)],
             errors = [Exception ''x'']\<rparr> \<and>
   length (failures [Submit ''a'', Submit ''b'', End 0 (Some (Exception ''x'')), End 1 None]) = 1 \<and>
   has_errors \<lparr>slots = 2, outstanding_jobs = [(''a'', False), (''b'', False)],
               errors = [Exception ''x'']\<rparr> \<and>
   wait_jobs \<lparr>slots = 2, outstanding_jobs = [(''a'', False), (''b'', False)],
              errors = [Exception ''x'']\<rparr>
     = Some ([Print [Str ''*** exceptions occurred in 1 threads:''],
              Print [ExnList [Exception ''x'']], Print [Str []]],
             Inl (Exception ''Exception in thread(s).'')) \<and>
   pool_run [Submit ''a'', Submit ''b'', End 0 (Some (Exception ''x''))] (Jobs 2)
     = Some \<lparr>slots = 1, outstanding_jobs = [(''a'', False), (''b'', True)],
             errors = [Exception ''x'']\<rparr> \<and>
   list_ex snd (outstanding_jobs \<lparr>slots = 1, outstanding_jobs = [(''a'', False), (''b'', True)],
                 errors = [Exception ''x'']\<rparr>) \<and>
   0 < executing \<lparr>slots = 1, outstanding_jobs = [(''a'', False), (''b'', True)],
                  errors = [Exception ''x'']\<rparr> \<and>
   has_errors \<lparr>slots = 1, outstanding_jobs = [(''a'', False), (''b'', True)],
               errors = [Exception ''x'']\<rparr> \<and>
   wait_jobs \<lparr>slots = 1, outstanding_jobs = [(''a'', False), (''b'', True)],
              errors = [Exception ''x'']\<rparr> = None"
proof -
  let ?ok = "[Submit ''a'', Submit ''b'', End 1 None, End 0 None]"
  let ?bad = "[Submit ''a'', Submit ''b'', End 0 (Some (Exception ''x'')), End 1 None]"
  let ?p = "\<lparr>slots = 2, outstanding_jobs = [(''a'', False), (''b'', False)], errors = []\<rparr>"
  let ?q = "\<lparr>slots = 2, outstanding_jobs = [(''a'', False), (''b'', False)],
             errors = [Exception ''x'']\<rparr>"
  have r1: "pool_run ?ok (Jobs 2) = Some ?p"
    by (simp add: pool_step_def start_job_def do_job_end_def Jobs_def)
  have r2: "pool_run ?bad (Jobs 2) = Some ?q"
    by (simp add: pool_step_def start_job_def do_job_end_def Jobs_def)
  have f1: "failures ?ok = []" and f2: "failures ?bad = [Exception ''x'']"
    by (simp_all add: failures_def)
  have e: "\<not> list_ex snd (outstanding_jobs ?p)" "\<not> list_ex snd (outstanding_jobs ?q)"
    by simp_all
  have a: "wait_jobs ?p = Some ([], Inr ())"
    using wait_jobs_outcome [OF r1] e(1) f1 by blast
  have l: "length (failures ?bad) = 1"
    by (simp add: failures_def)
  have n: "failures ?bad \<noteq> []"
    by (simp add: failures_def)
  have b: "has_errors ?q"
    using wait_jobs_outcome [OF r2] n by blast
  have c: "wait_jobs ?q
     = Some ([Print [Str ''*** exceptions occurred in 1 threads:''],
              Print [ExnList (failures ?bad)], Print [Str []]],
             Inl (Exception ''Exception in thread(s).''))"
    using wait_jobs_outcome [OF r2] e(2) l by blast
  let ?mid = "[Submit ''a'', Submit ''b'', End 0 (Some (Exception ''x''))]"
  let ?m = "\<lparr>slots = 1, outstanding_jobs = [(''a'', False), (''b'', True)],
             errors = [Exception ''x'']\<rparr>"
  have r3: "pool_run ?mid (Jobs 2) = Some ?m"
    by (simp add: pool_step_def start_job_def do_job_end_def Jobs_def)
  have run: "list_ex snd (outstanding_jobs ?m)"
    by simp
  have ex: "0 < executing ?m"
    by (simp add: executing_def)
  have n3: "failures ?mid \<noteq> []"
    by (simp add: failures_def)
  have b3: "has_errors ?m"
    using wait_jobs_outcome [OF r3] n3 by blast
  have w3: "wait_jobs ?m = None"
    using wait_jobs_outcome [OF r3] run ex by blast
  from r1 f1 a r2 l b c [unfolded f2] r3 run ex b3 w3 show ?thesis
    by (intro conjI)
qed

section \<open>Submission after an error\<close>

text \<open>
  When \<open>has_errors\<close> is true at the check, the loop is left with \<open>chunk\<close> and
  \<open>chunk_size\<close> as they are, so the remainder step submits the same chunk once more.
\<close>

lemma break_then_resubmit:
  assumes "threads a \<noteq> 1" and "pc s = Check rest" and "has_errors (jobs s)"
    and "1 \<le> chunk_size s" and "slots (jobs s) \<noteq> 0"
  shows "\<exists>s1 s2. main_step a cm r s = Some s1 \<and> pc s1 = Remainder \<and>
           main_step a cm r' s1 = Some s2 \<and> pc s2 = Wait \<and>
           dispatched s2 = dispatched s @ [chunk s]"
  using assms by (simp add: main_step_def dispatch_def start_job_def)

text \<open>
  Claim C3. With two threads and four test sources the chunk size is 2. The first chunk
  is submitted and fails before the main thread asks \<open>has_errors\<close>; the loop is left;
  the next step of the main thread calls \<open>start_job\<close> again, with the chunk that was
  already submitted, although the pool has reported the error.
\<close>

theorem submission_after_error:
  "chunk_max_of example_args example_testcases = 2 \<and>
   run_steps example_args 2 failing_schedule (loop_start example_args example_testcases []) \<noteq> None \<and>
   pc (the (run_steps example_args 2 failing_schedule
              (loop_start example_args example_testcases []))) = Remainder \<and>
   has_errors (jobs (the (run_steps example_args 2 failing_schedule
              (loop_start example_args example_testcases [])))) \<and>
   map fst (outstanding_jobs (jobs (the (run_steps example_args 2 failing_schedule
              (loop_start example_args example_testcases []))))) = [[''a.c'', ''b.c'']] \<and>
   run_steps example_args 2 (failing_schedule @ [Main (0, 0)])
     (loop_start example_args example_testcases []) \<noteq> None \<and>
   pc (the (run_steps example_args 2 (failing_schedule @ [Main (0, 0)])
              (loop_start example_args example_testcases []))) = Wait \<and>
   map fst (outstanding_jobs (jobs (the (run_steps example_args 2 (failing_schedule @ [Main (0, 0)])
              (loop_start example_args example_testcases [])))))
     = [[''a.c'', ''b.c''], [''a.c'', ''b.c'']]"
  by code_simp

section \<open>The support files\<close>

lemma build_cpp_result:
  assumes "language a = ''cpp''" and "valid_cases a" and "source_paths \<noteq> []"
  shows "snd (build_source_files a source_paths r) =
           (if fst r = 0 then Inr () else Inl (build_failed source_paths))"
  using assms
  by (cases r) (auto simp: build_source_files_def execute_def valid_cases_def build_failed_def Let_def)

lemma support_files_nonempty: "support_files a \<noteq> []"
  by (simp add: support_files_def)

lemma build_cpp_result_pipe:
  "language (a\<lparr>use_pipe := b\<rparr>) = language a" "valid_cases (a\<lparr>use_pipe := b\<rparr>) = valid_cases a"
  "support_files (a\<lparr>use_pipe := b\<rparr>) = support_files a"
  by (simp_all add: valid_cases_def support_files_def)

lemma init_args_fields:
  "language (init_args a) = language a" "valid_cases (init_args a) = valid_cases a"
  "cl (init_args a) = cl a" "use_pipe (init_args a) = (\<not> truthy (cl a))"
  "threads (init_args a) = threads a" "test_cases_dir (init_args a) = test_cases_dir a"
  "test_cases_support_dir (init_args a) = test_cases_support_dir a"
  by (simp_all add: init_args_def valid_cases_def Let_def)

declare build_support_files.simps [simp del]

lemma support_ok:
  "snd (build_source_files a files (env k)) = Inr u \<Longrightarrow>
   snd (build_support_files a files env k) = (Suc k, Inr a)"
  by (subst build_support_files.simps) (auto split: prod.splits)

lemma support_fatal:
  "snd (build_source_files a files (env k)) = Inl e \<Longrightarrow> \<not> use_pipe a \<Longrightarrow>
   snd (build_support_files a files env k) = (Suc k, Inl e)"
  by (subst build_support_files.simps) (auto split: prod.splits)

lemma support_retry:
  "snd (build_source_files a files (env k)) = Inl e \<Longrightarrow> use_pipe a \<Longrightarrow>
   snd (build_support_files a files env k) =
     snd (build_support_files (a\<lparr>use_pipe := False\<rparr>) files env (Suc k))"
  by (subst build_support_files.simps) (auto split: prod.splits)

lemma build_support_files_result:
  assumes "language a = ''cpp''" and "valid_cases a" and "files \<noteq> []"
  shows "snd (build_support_files a files env k) =
           (if fst (env k) = 0 then (Suc k, Inr a)
            else if \<not> use_pipe a then (Suc k, Inl (build_failed files))
            else if fst (env (Suc k)) = 0 then (Suc (Suc k), Inr (a\<lparr>use_pipe := False\<rparr>))
            else (Suc (Suc k), Inl (build_failed files)))"
proof -
  have b: "snd (build_source_files a files r) =
      (if fst r = 0 then Inr () else Inl (build_failed files))" for r
    using assms by (rule build_cpp_result)
  have b': "snd (build_source_files (a\<lparr>use_pipe := False\<rparr>) files r) =
      (if fst r = 0 then Inr () else Inl (build_failed files))" for r
    using assms by (intro build_cpp_result) (simp_all add: valid_cases_def)
  have np: "\<not> use_pipe (a\<lparr>use_pipe := False\<rparr>)" by simp
  show ?thesis
  proof (cases "fst (env k) = 0")
    case True
    then show ?thesis using support_ok [of a files env k "()"] b [of "env k"] by simp
  next
    case False
    then have f0: "snd (build_source_files a files (env k)) = Inl (build_failed files)"
      using b [of "env k"] by simp
    show ?thesis
    proof (cases "use_pipe a")
      case no: False
      with False show ?thesis using support_fatal [of a files env k, OF f0 no] by simp
    next
      case True
      note retry = support_retry [of a files env k, OF f0 True]
      show ?thesis
      proof (cases "fst (env (Suc k)) = 0")
        case ok: True
        then have "snd (build_source_files (a\<lparr>use_pipe := False\<rparr>) files (env (Suc k))) = Inr ()"
          using b' [of "env (Suc k)"] by simp
        from support_ok [of "a\<lparr>use_pipe := False\<rparr>" files env "Suc k", OF this] retry False True ok
        show ?thesis by simp
      next
        case bad: False
        then have "snd (build_source_files (a\<lparr>use_pipe := False\<rparr>) files (env (Suc k)))
            = Inl (build_failed files)"
          using b' [of "env (Suc k)"] by simp
        from support_fatal [of "a\<lparr>use_pipe := False\<rparr>" files env "Suc k", OF this np] retry False True bad
        show ?thesis by simp
      qed
    qed
  qed
qed

lemma build_support_result:
  assumes "language a = ''cpp''" and "valid_cases a"
  shows "snd (build_support (init_args a) env) =
           (if fst (env 0) = 0 then (1, Inr (init_args a))
            else if truthy (cl a) then (1, Inl (build_failed (support_files a)))
            else if fst (env 1) = 0 then (2, Inr ((init_args a)\<lparr>use_pipe := False\<rparr>))
            else (2, Inl (build_failed (support_files a))))"
proof -
  let ?a = "init_args a"
  have sf: "support_files ?a = support_files a"
    by (simp add: support_files_def init_args_fields)
  have "snd (build_support ?a env) = snd (build_support_files ?a (support_files ?a) env 0)"
    using assms(1) by (simp add: build_support_def init_args_fields split: prod.splits)
  also have "\<dots> =
       (if fst (env 0) = 0 then (Suc 0, Inr ?a)
        else if \<not> use_pipe ?a then (Suc 0, Inl (build_failed (support_files ?a)))
        else if fst (env (Suc 0)) = 0 then (Suc (Suc 0), Inr (?a\<lparr>use_pipe := False\<rparr>))
        else (Suc (Suc 0), Inl (build_failed (support_files ?a))))"
    by (rule build_support_files_result)
       (simp_all add: assms init_args_fields support_files_nonempty)
  finally show ?thesis
    by (simp add: init_args_fields sf eval_nat_numeral)
qed

text \<open>
  Claim C5, amended. For the language \<open>cpp\<close> with a valid case selection: \<open>-pipe\<close> is
  on for the first attempt exactly when \<open>--cl\<close> is not given. A first attempt that
  succeeds ends the loop after one build. A first attempt that fails is fatal at once
  under \<open>--cl\<close>; otherwise \<open>-pipe\<close> is switched off and exactly one more attempt is
  made, whose success lets the run go on and whose failure is fatal.
\<close>

theorem support_build_retry:
  assumes "language a = ''cpp''" and "valid_cases a"
  shows "use_pipe (init_args a) = (\<not> truthy (cl a)) \<and>
         snd (build_support (init_args a) env) =
           (if fst (env 0) = 0 then (1, Inr (init_args a))
            else if truthy (cl a) then (1, Inl (build_failed (support_files a)))
            else if fst (env 1) = 0 then (2, Inr ((init_args a)\<lparr>use_pipe := False\<rparr>))
            else (2, Inl (build_failed (support_files a))))"
  using build_support_result [OF assms] by (simp add: init_args_fields)

theorem support_build_retry_witness:
  "language example_args = ''cpp'' \<and> valid_cases example_args \<and>
   \<not> truthy (cl example_args) \<and> use_pipe (init_args example_args) \<and>
   snd (build_support (init_args example_args) always_ok) = (1, Inr (init_args example_args)) \<and>
   snd (build_support (init_args example_args) fail_once)
     = (2, Inr ((init_args example_args)\<lparr>use_pipe := False\<rparr>)) \<and>
   snd (build_support (init_args example_args) always_fail)
     = (2, Inl (build_failed (support_files example_args))) \<and>
   language cl_args = ''cpp'' \<and> valid_cases cl_args \<and> truthy (cl cl_args) \<and>
   snd (build_support (init_args cl_args) always_fail)
     = (1, Inl (build_failed (support_files cl_args)))"
proof -
  have h: "language example_args = ''cpp''" "valid_cases example_args"
    and h': "language cl_args = ''cpp''" "valid_cases cl_args"
    by (simp_all add: example_args_def cl_args_def valid_cases_def)
  have t: "\<not> truthy (cl example_args)" "truthy (cl cl_args)"
    by (simp_all add: example_args_def cl_args_def truthy_def)
  have e: "fst (always_ok 0) = 0" "fst (fail_once 0) \<noteq> 0" "fst (fail_once 1) = 0"
    "fst (always_fail 0) \<noteq> 0" "fst (always_fail 1) \<noteq> 0"
    by (simp_all add: always_ok_def fail_once_def always_fail_def)
  show ?thesis
    using support_build_retry [OF h, of always_ok] support_build_retry [OF h, of fail_once]
      support_build_retry [OF h, of always_fail] support_build_retry [OF h', of always_fail]
      h h' t e
    by simp
qed

text \<open>
  Claim C5 as stated fails under \<open>--cl\<close>: the first attempt fails, a second one would
  succeed, and yet the failure is fatal after a single build.
\<close>

theorem cl_support_failure_not_retried:
  "fst (fail_once 0) \<noteq> 0 \<and> fst (fail_once 1) = 0 \<and>
   snd (build_support (init_args cl_args) fail_once)
     = (1, Inl (build_failed (support_files cl_args)))"
proof -
  have h': "language cl_args = ''cpp''" "valid_cases cl_args"
    by (simp_all add: example_args_def cl_args_def valid_cases_def)
  have t: "truthy (cl cl_args)"
    by (simp add: example_args_def cl_args_def truthy_def)
  show ?thesis
    using build_support_result [OF h', of fail_once] t
    by (simp add: fail_once_def)
qed

section \<open>A non-positive number of threads\<close>

lemma support_files_keep:
  "build_support_files a files env k = (ev, k', Inr a') \<Longrightarrow>
   threads a' = threads a \<and> language a' = language a"
proof (induction a files env k arbitrary: ev k' a' rule: build_support_files.induct)
  case (1 a files env k)
  obtain ev0 res0 where b: "build_source_files a files (env k) = (ev0, res0)"
    by (cases "build_source_files a files (env k)")
  show ?case
  proof (cases res0)
    case (Inr u)
    with b "1.prems" show ?thesis
      by (subst (asm) build_support_files.simps) simp
  next
    case (Inl e)
    show ?thesis
    proof (cases "use_pipe a")
      case False
      with b Inl "1.prems" show ?thesis
        by (subst (asm) build_support_files.simps) simp
    next
      case True
      obtain ev1 k1 res1 where r: "build_support_files (a\<lparr>use_pipe := False\<rparr>) files env (Suc k)
          = (ev1, k1, res1)"
        by (metis prod.collapse)
      with b Inl True "1.prems" have "res1 = Inr a'"
        by (subst (asm) build_support_files.simps) simp
      with "1.IH" [OF b [symmetric] Inl True] r show ?thesis by simp
    qed
  qed
qed

lemma build_support_keep:
  "build_support a env = (ev, k, Inr a') \<Longrightarrow> threads a' = threads a \<and> language a' = language a"
  by (auto simp: build_support_def split: if_splits prod.splits dest: support_files_keep)

lemma main_start_nonpositive:
  assumes "threads a < 1"
  shows "isl (snd (main_start a cpu_count tree env))"
proof -
  let ?a = "init_args a"
  obtain ev1 r1 where s: "scan_testcases ?a tree = (ev1, r1)" by (metis prod.collapse)
  obtain ev2 k r2 where b: "build_support ?a env = (ev2, k, r2)" by (metis prod.collapse)
  show ?thesis
  proof (cases r1)
    case (Inl e)
    with s show ?thesis by (simp add: main_start_def)
  next
    case tcs: (Inr testcases)
    show ?thesis
    proof (cases r2)
      case (Inl e)
      with s tcs b show ?thesis by (simp add: main_start_def)
    next
      case (Inr a')
      with b have "threads a' = threads a"
        using build_support_keep [of ?a env ev2 k a'] by (simp add: init_args_fields)
      with assms s tcs b Inr show ?thesis
        by (simp add: main_start_def split: option.splits)
    qed
  qed
qed

lemma find_cpp:
  assumes "language a = ''cpp''"
  shows "\<exists>ev tcs. find_all_testcases a tree = (ev, Inr tcs) \<and> ListDir (test_cases_dir a) \<in> set ev"
proof -
  obtain ev4 where "snd (find_all_testcases_rec (test_cases_dir a) tree dirs_regexp files_regexp_cpp
      (cwe_set (cwes a)) (cwe_set (exclude a)) (\<not> truthy (cl a))) = ListDir (test_cases_dir a) # ev4"
    using rec_events_head by blast
  then show ?thesis
    using assms by (auto simp: find_all_testcases_def Let_def split: prod.splits)
qed

lemma scan_cpp:
  assumes "language a = ''cpp''"
  shows "\<exists>ev tcs. scan_testcases a tree = (ev, Inr tcs) \<and> ListDir (test_cases_dir a) \<in> set ev"
proof -
  from find_cpp [OF assms] obtain ev tcs where
    "find_all_testcases a tree = (ev, Inr tcs)" "ListDir (test_cases_dir a) \<in> set ev"
    by blast
  then show ?thesis by (simp add: scan_testcases_def)
qed

lemma build_cpp_ok_events:
  assumes "language a = ''cpp''" and "valid_cases a" and "fst r = 0"
  shows "\<exists>ev. build_source_files a files r = (ev, Inr ()) \<and> list_ex is_call ev"
  using assms
  by (cases r)
     (auto simp: build_source_files_def execute_def valid_cases_def is_call_def Let_def)

lemma build_support_ok_events:
  assumes "language a = ''cpp''" and "valid_cases a" and "fst (env 0) = 0"
  shows "\<exists>ev. build_support a env = (ev, 1, Inr a) \<and> list_ex is_call ev"
proof -
  from build_cpp_ok_events [OF assms(1,2,3)] obtain ev where
    "build_source_files a (support_files a) (env 0) = (ev, Inr ())" "list_ex is_call ev"
    by blast
  then show ?thesis
    using assms(1) by (subst build_support_def, subst build_support_files.simps) simp
qed

text \<open>
  Claim C8, amended. With \<open>--threads\<close> below 1 the part of \<open>main\<close> before the loop
  always ends in an exception, so no chunk of test sources is built or submitted. For
  the language \<open>cpp\<close> with a valid case selection, a known CPU count and a support build
  that succeeds at once, the exception is the one about \<open>threads\<close>, and by then the
  test-case directory has been listed and a compiler process has been run.
\<close>

theorem nonpositive_threads_late:
  assumes "threads a < 1"
  shows "isl (snd (main_start a cpu_count tree env)) \<and>
         (language a = ''cpp'' \<and> valid_cases a \<and> fst (env 0) = 0 \<and> cpu_count \<noteq> None \<longrightarrow>
            snd (main_start a cpu_count tree env) = Inl nonpositive_threads \<and>
            ListDir (test_cases_dir a) \<in> set (fst (main_start a cpu_count tree env)) \<and>
            list_ex is_call (fst (main_start a cpu_count tree env)))"
proof (intro conjI impI)
  show "isl (snd (main_start a cpu_count tree env))"
    using assms by (rule main_start_nonpositive)
next
  assume h: "language a = ''cpp'' \<and> valid_cases a \<and> fst (env 0) = 0 \<and> cpu_count \<noteq> None"
  let ?a = "init_args a"
  from h obtain n where n: "cpu_count = Some n" by auto
  from h have l: "language ?a = ''cpp''" and v: "valid_cases ?a"
    by (simp_all add: init_args_fields)
  from scan_cpp [OF l, of tree] obtain ev1 tcs where
    s: "scan_testcases ?a tree = (ev1, Inr tcs)" and d: "ListDir (test_cases_dir a) \<in> set ev1"
    unfolding init_args_fields by blast
  from build_support_ok_events [OF l v] h obtain ev2 where
    b: "build_support ?a env = (ev2, 1, Inr ?a)" and c: "list_ex is_call ev2"
    by blast
  have m: "main_start a cpu_count tree env =
      (ev1 @ ev2 @ [threads_msg ?a n, Print [Str []]], Inl nonpositive_threads)"
    using assms s b n by (simp add: main_start_def nonpositive_threads_def init_args_fields)
  show "snd (main_start a cpu_count tree env) = Inl nonpositive_threads"
    by (simp add: m)
  show "ListDir (test_cases_dir a) \<in> set (fst (main_start a cpu_count tree env))"
    using d by (simp add: m)
  show "list_ex is_call (fst (main_start a cpu_count tree env))"
    using c by (auto simp: m list_ex_iff)
qed

theorem nonpositive_threads_late_witness:
  "threads zero_args < 1 \<and> language zero_args = ''cpp'' \<and> valid_cases zero_args \<and>
   fst (always_ok 0) = 0 \<and> Some (4::nat) \<noteq> None \<and>
   isl (snd (main_start zero_args (Some 4) example_tree always_ok)) \<and>
   snd (main_start zero_args (Some 4) example_tree always_ok) = Inl nonpositive_threads \<and>
   ListDir (test_cases_dir zero_args) \<in> set (fst (main_start zero_args (Some 4) example_tree always_ok)) \<and>
   list_ex is_call (fst (main_start zero_args (Some 4) example_tree always_ok))"
proof -
  have t: "threads zero_args < 1"
    by (simp add: zero_args_def example_args_def)
  have h: "language zero_args = ''cpp''" "valid_cases zero_args" "fst (always_ok 0) = 0"
    "Some (4::nat) \<noteq> None"
    by (simp_all add: zero_args_def example_args_def valid_cases_def always_ok_def)
  show ?thesis
    using nonpositive_threads_late [OF t, of "Some 4" example_tree always_ok] t h by blast
qed

text \<open>
  Claim C8 as stated fails: with \<open>--threads 0\<close> the test-case directory is listed and the
  support file is compiled before the exception is raised.
\<close>

theorem discovery_before_threads_check:
  "threads zero_args < 1 \<and>
   ListDir ''/juliet/C/testcases''
     \<in> set (fst (main_start zero_args (Some 4) example_tree always_ok)) \<and>
   Call [''/usr/bin/gcc'', ''-I'', ''/juliet/C/testcasesupport'',
         ''-DCALG_RC5=(ALG_CLASS_DATA_ENCRYPT|ALG_TYPE_BLOCK|ALG_SID_RC5)'', ''-DNO_ERROR=0L'',
         ''-D__STDC_FORMAT_MACROS'', ''-c'', ''-wrapper'', ''true'', ''-pipe'',
         ''/juliet/C/testcasesupport/io.c'']
     \<in> set (fst (main_start zero_args (Some 4) example_tree always_ok))"
  by code_simp

section \<open>The chunks that are built\<close>

lemma ceil_div_split:
  assumes "0 < m"
  shows "ceil_div n m = n div m + (if n mod m = 0 then 0 else 1)"
proof -
  have n: "n = n div m * m + n mod m" by simp
  have "n + m - 1 = (n mod m + m - 1) + n div m * m"
    using assms by (metis (no_types, lifting) Nat.add_diff_assoc2 add.assoc add.commute n
        One_nat_def Suc_leI trans_le_add2)
  then have "(n + m - 1) div m = (n mod m + m - 1) div m + n div m"
    using assms by (metis div_mult_self1 less_numeral_extra(3) add.commute)
  moreover have "(n mod m + m - 1) div m = (if n mod m = 0 then 0 else 1)"
  proof (cases "n mod m = 0")
    case True
    then show ?thesis using assms by simp
  next
    case False
    then have "m \<le> n mod m + m - 1" "n mod m + m - 1 < 2 * m"
      using assms mod_less_divisor [OF assms, of n] by linarith+
    then have "(n mod m + m - 1) div m = 1"
      by (metis (no_types, lifting) div_nat_eqI mult.commute mult_1 mult_2 nat_mult_1_right
          Suc_1 mult_Suc_right One_nat_def)
    with False show ?thesis by simp
  qed
  ultimately show ?thesis by (simp add: ceil_div_def)
qed

lemma batch_size_pos: "0 < batch_size cm"
  by (simp add: batch_size_def)

lemma loop_inv_start: "loop_inv (batch_size cm) tcs (loop_start a tcs ev)"
  by (simp add: loop_inv_def loop_start_def full_def batch_size_pos)

lemma do_job_end_errors:
  "do_job_end i outcome p = Some p' \<Longrightarrow> errors p \<noteq> [] \<Longrightarrow> errors p' \<noteq> []"
  by (auto simp: do_job_end_def split: if_splits)

lemma thread_end_fields:
  assumes "thread_end a i r s = Some s'"
  shows "pc s' = pc s" "chunk s' = chunk s" "chunk_size s' = chunk_size s"
    "dispatched s' = dispatched s" "errors (jobs s) \<noteq> [] \<Longrightarrow> errors (jobs s') \<noteq> []"
  using assms
  by (auto simp: thread_end_def split: if_splits prod.splits option.splits
      dest: do_job_end_errors)

lemma thread_end_inv:
  assumes "thread_end a i r s = Some s'" and "loop_inv m tcs s"
  shows "loop_inv m tcs s'"
  using assms(2) thread_end_fields [OF assms(1)]
  by (auto simp: loop_inv_def split: pc.splits option.splits)

lemma dispatch_fields:
  assumes "dispatch a r target s = Some s'"
  shows "dispatched s' = dispatched s @ [chunk s]" "chunk s' = chunk s"
    "chunk_size s' = chunk_size s" "errors (jobs s') = errors (jobs s)"
    "pc s' = target \<or> (\<exists>e. pc s' = Done (Some e))"
  using assms
  by (auto simp: dispatch_def start_job_def split: if_splits prod.splits sum.splits option.splits)

lemma chunk_fills:
  assumes "length c < batch_size cm"
  shows "cm \<le> int (length c + 1) \<Longrightarrow> length c + 1 = batch_size cm"
    and "\<not> cm \<le> int (length c + 1) \<Longrightarrow> length c + 1 < batch_size cm"
  using assms by (auto simp: batch_size_def max_def split: if_splits)

lemma full_snoc: "full m (ds @ [b]) \<longleftrightarrow> full m ds \<and> length b = m"
  by (auto simp: full_def)

lemma main_step_inv:
  assumes st: "main_step a cm r s = Some s'" and inv: "loop_inv (batch_size cm) tcs s"
  shows "loop_inv (batch_size cm) tcs s'"
proof (cases "pc s")
  case (Loop todo)
  show ?thesis
  proof (cases todo)
    case Nil
    with st Loop have "s' = s\<lparr>pc := Remainder\<rparr>"
      by (simp add: main_step_def)
    with inv Loop Nil show ?thesis
      by (auto simp: loop_inv_def)
  next
    case (Cons t rest)
    define s1 where "s1 = s\<lparr>chunk := chunk s @ [t], chunk_size := chunk_size s + 1\<rparr>"
    have s1: "chunk s1 = chunk s @ [t]" "chunk_size s1 = chunk_size s + 1"
      "dispatched s1 = dispatched s" "jobs s1 = jobs s"
      by (simp_all add: s1_def)
    show ?thesis
    proof (cases "cm \<le> int (chunk_size s1)")
      case True
      with st Loop Cons have d: "dispatch a r (Check rest) s1 = Some s'"
        by (simp add: main_step_def s1_def Let_def)
      note f = dispatch_fields [OF d]
      show ?thesis
      proof (cases "errors (jobs s) \<noteq> []")
        case e: True
        from f(5) show ?thesis
          using e f(4) s1 by (auto simp: loop_inv_def)
      next
        case False
        with inv Loop Cons have i: "tcs = concat (dispatched s) @ chunk s @ t # rest"
          "full (batch_size cm) (dispatched s)" "length (chunk s) < batch_size cm"
          "chunk_size s = length (chunk s)"
          by (auto simp: loop_inv_def)
        have "length (chunk s) + 1 = batch_size cm"
          using chunk_fills(1) [OF i(3)] True s1 i(4) by simp
        then have "full (batch_size cm) (dispatched s')"
          using f(1) s1 i(2) by (simp add: full_snoc)
        moreover have "tcs = concat (dispatched s') @ rest"
          using f(1) s1 i(1) by simp
        ultimately show ?thesis
          using f(5) by (auto simp: loop_inv_def)
      qed
    next
      case False
      with st Loop Cons have s': "s' = s1\<lparr>pc := Loop rest\<rparr>"
        by (simp add: main_step_def s1_def Let_def)
      show ?thesis
      proof (cases "errors (jobs s) \<noteq> []")
        case True
        then show ?thesis by (simp add: loop_inv_def s' s1)
      next
        case ne: False
        with inv Loop Cons have i: "tcs = concat (dispatched s) @ chunk s @ t # rest"
          "full (batch_size cm) (dispatched s)" "length (chunk s) < batch_size cm"
          "chunk_size s = length (chunk s)"
          by (auto simp: loop_inv_def)
        have "length (chunk s) + 1 < batch_size cm"
          using chunk_fills(2) [OF i(3)] False s1 i(4) by simp
        then show ?thesis
          using i by (simp add: loop_inv_def s' s1)
      qed
    qed
  qed
next
  case (Check rest)
  show ?thesis
  proof (cases "threads a \<noteq> 1 \<and> has_errors (jobs s)")
    case True
    with st Check have "s' = s\<lparr>pc := Remainder\<rparr>"
      by (simp add: main_step_def)
    with True show ?thesis
      by (simp add: loop_inv_def has_errors_def)
  next
    case False
    with st Check have "s' = s\<lparr>chunk := [], chunk_size := 0, pc := Loop rest\<rparr>"
      by (auto simp: main_step_def)
    with inv Check show ?thesis
      by (auto simp: loop_inv_def batch_size_pos)
  qed
next
  case Remainder
  show ?thesis
  proof (cases "1 \<le> chunk_size s")
    case True
    with st Remainder have d: "dispatch a r Wait s = Some s'"
      by (simp add: main_step_def)
    note f = dispatch_fields [OF d]
    show ?thesis
    proof (cases "errors (jobs s) \<noteq> []")
      case e: True
      from f(5) show ?thesis
        using e f(4) by (auto simp: loop_inv_def)
    next
      case False
      with inv Remainder have i: "tcs = concat (dispatched s) @ chunk s"
        "full (batch_size cm) (dispatched s)" "length (chunk s) < batch_size cm"
        "chunk_size s = length (chunk s)"
        by (auto simp: loop_inv_def)
      have "complete (batch_size cm) tcs (dispatched s')"
        using f(1) i True by (auto simp: complete_def)
      then show ?thesis
        using f(5) by (auto simp: loop_inv_def)
    qed
  next
    case False
    with st Remainder have s': "s' = s\<lparr>pc := Wait\<rparr>"
      by (simp add: main_step_def)
    show ?thesis
    proof (cases "errors (jobs s) \<noteq> []")
      case True
      then show ?thesis by (simp add: loop_inv_def s')
    next
      case ne: False
      with inv Remainder have i: "tcs = concat (dispatched s) @ chunk s"
        "full (batch_size cm) (dispatched s)" "chunk_size s = length (chunk s)"
        by (auto simp: loop_inv_def)
      from False i(3) have "chunk s = []" by (cases "chunk s") auto
      then have "complete (batch_size cm) tcs (dispatched s)"
        using i batch_size_pos [of cm]
        by (auto simp: complete_def full_def dest: in_set_butlastD)
      then show ?thesis by (simp add: loop_inv_def s')
    qed
  qed
next
  case Wait
  with st obtain ev res where w: "wait_jobs (jobs s) = Some (ev, res)"
    by (auto simp: main_step_def split: option.splits)
  show ?thesis
  proof (cases res)
    case (Inl e)
    with st Wait w have "pc s' = Done (Some e)"
      by (auto simp: main_step_def)
    then show ?thesis by (simp add: loop_inv_def)
  next
    case (Inr u)
    with w have "errors (jobs s) = []"
      by (auto simp: wait_jobs_def split: if_splits)
    moreover from st Wait w Inr have "s' = s\<lparr>trace := trace s @ ev, pc := Done None\<rparr>"
      by (auto simp: main_step_def)
    ultimately show ?thesis
      using inv Wait by (simp add: loop_inv_def)
  qed
next
  case (Done x)
  with st show ?thesis by (simp add: main_step_def)
qed

lemma step_inv:
  "step a cm act s = Some s' \<Longrightarrow> loop_inv (batch_size cm) tcs s \<Longrightarrow>
   loop_inv (batch_size cm) tcs s'"
  by (cases act) (auto simp: step_def intro: main_step_inv thread_end_inv)

lemma run_steps_inv:
  "run_steps a cm acts s = Some s' \<Longrightarrow> loop_inv (batch_size cm) tcs s \<Longrightarrow>
   loop_inv (batch_size cm) tcs s'"
proof (induction acts arbitrary: s)
  case Nil
  then show ?case by simp
next
  case (Cons act acts)
  from Cons.prems(1) obtain s1 where 1: "step a cm act s = Some s1"
    and 2: "run_steps a cm acts s1 = Some s'"
    by (auto split: option.splits)
  from Cons.IH [OF 2 step_inv [OF 1 Cons.prems(2)]] show ?case .
qed

lemma length_concat_full: "full m ds \<Longrightarrow> length (concat ds) = length ds * m"
  by (induction ds) (auto simp: full_def)

lemma complete_count:
  assumes "complete m tcs ds" and "0 < m"
  shows "length ds = ceil_div (length tcs) m"
proof (cases "ds = []")
  case True
  with assms show ?thesis by (auto simp: complete_def ceil_div_def)
next
  case False
  then have ds: "ds = butlast ds @ [last ds]" by simp
  from assms False have c: "concat ds = tcs" "full m (butlast ds)"
    "0 < length (last ds)" "length (last ds) \<le> m"
    by (auto simp: complete_def)
  have "length tcs = length (concat (butlast ds @ [last ds]))"
    using c(1) ds by simp
  also have "\<dots> = length (butlast ds) * m + length (last ds)"
    using length_concat_full [OF c(2)] by simp
  finally have n: "length tcs = length (butlast ds) * m + length (last ds)" .
  have k: "length ds = length (butlast ds) + 1"
    using False by (simp add: Suc_leI)
  note split = ceil_div_split [OF assms(2), of "length tcs"]
  show ?thesis
  proof (cases "length (last ds) = m")
    case True
    then have "length tcs = (length (butlast ds) + 1) * m" using n by simp
    then have "length tcs div m = length (butlast ds) + 1" "length tcs mod m = 0"
      using assms(2) by simp_all
    then show ?thesis
      unfolding split k by simp
  next
    case ne: False
    then have l: "length (last ds) < m" using c(4) by simp
    then have "length tcs div m = length (butlast ds)" "length tcs mod m = length (last ds)"
      unfolding n by simp_all
    then show ?thesis
      unfolding split k using c(3) by simp
  qed
qed

text \<open>
  Claim C2. For the language \<open>cpp\<close> and at least one thread, in every run of the loop
  and the pool that ends with \<open>wait_jobs\<close> returning normally (no chunk failed), the
  chunks handed to \<open>build_source_files\<close> or \<open>start_job\<close>, concatenated in the order
  of submission, are exactly the discovered list, and their number is
  \<open>ceil (N / max 1 (min 50 (round (N / C))))\<close>.
\<close>

theorem batching_lossless:
  assumes "1 \<le> threads a" and "language a = ''cpp''"
    and "run_steps a (chunk_max_of a testcases) acts (loop_start a testcases ev) = Some s"
    and "pc s = Done None"
  shows "concat (dispatched s) = testcases \<and>
         length (dispatched s) =
           ceil_div (length testcases)
             (nat (max 1 (min 50 (py_round_div (int (length testcases)) (threads a)))))"
proof -
  let ?cm = "chunk_max_of a testcases"
  have "loop_inv (batch_size ?cm) testcases s"
    using run_steps_inv [OF assms(3) loop_inv_start] .
  with assms(4) have c: "complete (batch_size ?cm) testcases (dispatched s)"
    by (simp add: loop_inv_def)
  have j: "language a \<noteq> ''java''" using assms(2) by simp
  have "batch_size ?cm = nat (max 1 (min 50 (py_round_div (int (length testcases)) (threads a))))"
    by (simp add: batch_size_def chunk_max_of_def j)
  with c complete_count [OF c batch_size_pos] show ?thesis
    by (simp add: complete_def)
qed

theorem batching_lossless_witness:
  "1 \<le> threads example_args \<and> language example_args = ''cpp'' \<and>
   run_steps example_args (chunk_max_of example_args five_testcases) good_schedule
     (loop_start example_args five_testcases []) \<noteq> None \<and>
   pc (the (run_steps example_args (chunk_max_of example_args five_testcases) good_schedule
              (loop_start example_args five_testcases []))) = Done None \<and>
   dispatched (the (run_steps example_args (chunk_max_of example_args five_testcases) good_schedule
              (loop_start example_args five_testcases [])))
     = [[''a.c'', ''b.c''], [''c.c'', ''d.c''], [''e.c'']] \<and>
   concat (dispatched (the (run_steps example_args (chunk_max_of example_args five_testcases)
              good_schedule (loop_start example_args five_testcases [])))) = five_testcases \<and>
   length (dispatched (the (run_steps example_args (chunk_max_of example_args five_testcases)
              good_schedule (loop_start example_args five_testcases []))))
     = ceil_div (length five_testcases)
         (nat (max 1 (min 50 (py_round_div (int (length five_testcases)) (threads example_args)))))"
proof -
  let ?r = "run_steps example_args (chunk_max_of example_args five_testcases) good_schedule
     (loop_start example_args five_testcases [])"
  have h: "1 \<le> threads example_args" "language example_args = ''cpp''"
    by (simp_all add: example_args_def)
  have ev: "?r \<noteq> None \<and> pc (the ?r) = Done None \<and>
      dispatched (the ?r) = [[''a.c'', ''b.c''], [''c.c'', ''d.c''], [''e.c'']]"
    by code_simp
  then obtain s where s: "?r = Some s" by blast
  with ev have p: "pc s = Done None" by simp
  from batching_lossless [OF h s p] ev h s show ?thesis by simp
qed

section \<open>Runs without failures exist\<close>

text \<open>
  For the language \<open>cpp\<close> with a valid case selection the loop can always be run to
  the normal return of \<open>wait_jobs\<close>: every build succeeds and every thread ends before
  the main thread goes on. So a run in which no chunk fails exists for every list of test
  sources.
\<close>

lemma run_steps_append:
  "run_steps a cm (xs @ ys) s =
     (case run_steps a cm xs s of None \<Rightarrow> None | Some s1 \<Rightarrow> run_steps a cm ys s1)"
  by (induction xs arbitrary: s) (auto split: option.splits)

lemma build_cpp_ok:
  assumes "language a = ''cpp''" and "valid_cases a"
  shows "snd (build_source_files a files (0, 0)) = Inr ()"
  using build_cpp_ok_events [OF assms, of "(0, 0)" files] by auto

lemma list_ex_snd_update:
  "\<not> list_ex snd xs \<Longrightarrow> \<not> list_ex snd ((xs @ [(c, True)])[length xs := (c, False)])"
  by (simp add: list_ex_iff)

lemma dispatch_quiet:
  assumes cpp: "language a = ''cpp''" "valid_cases a" and q: "quiet a s"
    and that: "\<And>r. main_step a cm r s1 = dispatch a r nxt s"
  shows "\<exists>acts s'. run_steps a cm acts s1 = Some s' \<and> pc s' = nxt \<and> quiet a s' \<and>
           chunk s' = chunk s \<and> chunk_size s' = chunk_size s"
proof (cases "threads a = 1")
  case True
  obtain ev where b: "build_source_files a (chunk s) (0, 0) = (ev, Inr ())"
    using build_cpp_ok [OF cpp, of "chunk s"] by (metis prod.collapse)
  have "run_steps a cm [Main (0, 0)] s1 =
      Some (s\<lparr>trace := trace s @ ev, dispatched := dispatched s @ [chunk s], pc := nxt\<rparr>)"
    using that True b by (simp add: step_def dispatch_def)
  moreover have "quiet a (s\<lparr>trace := trace s @ ev, dispatched := dispatched s @ [chunk s], pc := nxt\<rparr>)"
    using q by (simp add: quiet_def)
  ultimately show ?thesis by fastforce
next
  case False
  let ?n = "length (outstanding_jobs (jobs s))"
  let ?p = "(jobs s)\<lparr>slots := slots (jobs s) - 1,
                outstanding_jobs := outstanding_jobs (jobs s) @ [(chunk s, True)]\<rparr>"
  let ?s2 = "s\<lparr>jobs := ?p, dispatched := dispatched s @ [chunk s], pc := nxt\<rparr>"
  obtain ev where b: "build_source_files a (chunk s) (0, 0) = (ev, Inr ())"
    using build_cpp_ok [OF cpp, of "chunk s"] by (metis prod.collapse)
  have 1: "step a cm (Main (0, 0)) s1 = Some ?s2"
    using that False q by (simp add: step_def dispatch_def start_job_def quiet_def)
  let ?p' = "?p\<lparr>errors := errors ?p @ [], slots := slots ?p + 1,
       outstanding_jobs := (outstanding_jobs ?p)[?n := (chunk s, False)]\<rparr>"
  let ?s3 = "?s2\<lparr>jobs := ?p', trace := trace ?s2 @ ev\<rparr>"
  have 2: "step a cm (Thread ?n (0, 0)) ?s2 = Some ?s3"
    using b by (simp add: step_def thread_end_def do_job_end_def nth_append)
  have "run_steps a cm [Main (0, 0), Thread ?n (0, 0)] s1 = Some ?s3"
    using 1 2 by simp
  moreover have "quiet a ?s3"
    using q list_ex_snd_update [of "outstanding_jobs (jobs s)" "chunk s"]
    by (simp add: quiet_def)
  ultimately show ?thesis by fastforce
qed

lemma run_steps_then:
  "run_steps a cm xs s = Some s1 \<Longrightarrow> run_steps a cm ys s1 = Some s2 \<Longrightarrow>
   run_steps a cm (xs @ ys) s = Some s2"
  by (simp add: run_steps_append)

lemma wait_finishes:
  assumes "pc s = Wait" and "quiet a s"
  shows "\<exists>acts s'. run_steps a cm acts s = Some s' \<and> pc s' = Done None"
proof -
  have "wait_jobs (jobs s) = Some ([], Inr ())"
    using assms(2) by (simp add: wait_jobs_def quiet_def)
  then have "run_steps a cm [Main (0, 0)] s = Some (s\<lparr>trace := trace s @ [], pc := Done None\<rparr>)"
    using assms(1) by (simp add: step_def main_step_def)
  then show ?thesis by fastforce
qed

lemma remainder_finishes:
  assumes cpp: "language a = ''cpp''" "valid_cases a"
    and "pc s = Remainder" and q: "quiet a s"
  shows "\<exists>acts s'. run_steps a cm acts s = Some s' \<and> pc s' = Done None"
proof (cases "1 \<le> chunk_size s")
  case True
  then have "\<And>r. main_step a cm r s = dispatch a r Wait s"
    using assms(3) by (simp add: main_step_def)
  from dispatch_quiet [OF cpp q this] obtain acts s1 where
    1: "run_steps a cm acts s = Some s1" and w: "pc s1 = Wait" "quiet a s1"
    by blast
  from wait_finishes [OF w] obtain acts' s2 where
    2: "run_steps a cm acts' s1 = Some s2" and d: "pc s2 = Done None"
    by blast
  from run_steps_then [OF 1 2] d show ?thesis by blast
next
  case False
  then have 1: "run_steps a cm [Main (0, 0)] s = Some (s\<lparr>pc := Wait\<rparr>)"
    using assms(3) by (simp add: step_def main_step_def)
  have w: "pc (s\<lparr>pc := Wait\<rparr>) = Wait" "quiet a (s\<lparr>pc := Wait\<rparr>)"
    using q by (simp_all add: quiet_def)
  from wait_finishes [OF w] obtain acts' s2 where
    2: "run_steps a cm acts' (s\<lparr>pc := Wait\<rparr>) = Some s2" and d: "pc s2 = Done None"
    by blast
  from run_steps_then [OF 1 2] d show ?thesis by blast
qed

lemma loop_finishes:
  assumes cpp: "language a = ''cpp''" "valid_cases a"
  shows "pc s = Loop todo \<Longrightarrow> quiet a s \<Longrightarrow>
         \<exists>acts s'. run_steps a cm acts s = Some s' \<and> pc s' = Done None"
proof (induction todo arbitrary: s)
  case Nil
  then have 1: "run_steps a cm [Main (0, 0)] s = Some (s\<lparr>pc := Remainder\<rparr>)"
    by (simp add: step_def main_step_def)
  have r: "pc (s\<lparr>pc := Remainder\<rparr>) = Remainder" "quiet a (s\<lparr>pc := Remainder\<rparr>)"
    using Nil.prems(2) by (simp_all add: quiet_def)
  from remainder_finishes [OF cpp r] obtain acts' s2 where
    2: "run_steps a cm acts' (s\<lparr>pc := Remainder\<rparr>) = Some s2" and d: "pc s2 = Done None"
    by blast
  from run_steps_then [OF 1 2] d show ?case by blast
next
  case (Cons t rest)
  define s1 where "s1 = s\<lparr>chunk := chunk s @ [t], chunk_size := chunk_size s + 1\<rparr>"
  have q1: "quiet a s1" using Cons.prems(2) by (simp add: s1_def quiet_def)
  show ?case
  proof (cases "cm \<le> int (chunk_size s1)")
    case True
    then have "\<And>r. main_step a cm r s = dispatch a r (Check rest) s1"
      using Cons.prems(1) by (simp add: main_step_def s1_def Let_def)
    from dispatch_quiet [OF cpp q1 this] obtain acts sc where
      1: "run_steps a cm acts s = Some sc" and c: "pc sc = Check rest" "quiet a sc"
      by blast
    let ?sl = "sc\<lparr>chunk := [], chunk_size := 0, pc := Loop rest\<rparr>"
    have 2: "run_steps a cm [Main (0, 0)] sc = Some ?sl"
      using c by (simp add: step_def main_step_def has_errors_def quiet_def)
    have l: "pc ?sl = Loop rest" "quiet a ?sl"
      using c(2) by (simp_all add: quiet_def)
    from Cons.IH [OF l] obtain acts' s3 where
      3: "run_steps a cm acts' ?sl = Some s3" and d: "pc s3 = Done None"
      by blast
    from run_steps_then [OF run_steps_then [OF 1 2] 3] d show ?thesis by blast
  next
    case False
    let ?sl = "s1\<lparr>pc := Loop rest\<rparr>"
    have 1: "run_steps a cm [Main (0, 0)] s = Some ?sl"
      using False Cons.prems(1) by (simp add: step_def main_step_def s1_def Let_def)
    have l: "pc ?sl = Loop rest" "quiet a ?sl"
      using q1 by (simp_all add: quiet_def)
    from Cons.IH [OF l] obtain acts' s3 where
      3: "run_steps a cm acts' ?sl = Some s3" and d: "pc s3 = Done None"
      by blast
    from run_steps_then [OF 1 3] d show ?thesis by blast
  qed
qed

lemma successful_run_exists:
  assumes "language a = ''cpp''" and "valid_cases a" and "1 \<le> threads a"
  shows "\<exists>acts s. run_steps a cm acts (loop_start a testcases ev) = Some s \<and> pc s = Done None"
proof -
  have "pc (loop_start a testcases ev) = Loop testcases"
    by (simp add: loop_start_def)
  moreover have "quiet a (loop_start a testcases ev)"
    using assms(3) by (simp add: loop_start_def quiet_def Jobs_def)
  ultimately show ?thesis
    using loop_finishes [OF assms(1,2)] by blast
qed

text \<open>With more than one thread the chunks handed on are the jobs of the started
  threads, in the order of \<open>outstanding_jobs\<close>.\<close>

lemma start_job_jobs:
  "start_job c p = Some p' \<Longrightarrow> map fst (outstanding_jobs p') = map fst (outstanding_jobs p) @ [c]"
  by (auto simp: start_job_def split: if_splits)

lemma do_job_end_jobs:
  "do_job_end i outcome p = Some p' \<Longrightarrow> map fst (outstanding_jobs p') = map fst (outstanding_jobs p)"
proof -
  assume e: "do_job_end i outcome p = Some p'"
  then have i: "i < length (outstanding_jobs p)"
    and p': "outstanding_jobs p' = (outstanding_jobs p)[i := (fst (outstanding_jobs p ! i), False)]"
    by (auto simp: do_job_end_def split: if_splits)
  have "(map fst (outstanding_jobs p))[i := fst (outstanding_jobs p ! i)] = map fst (outstanding_jobs p)"
    using i by (metis list_update_id nth_map)
  then show ?thesis by (simp add: p' map_update)
qed

lemma step_jobs:
  assumes "threads a \<noteq> 1" and "step a cm act s = Some s'"
    and "map fst (outstanding_jobs (jobs s)) = dispatched s"
  shows "map fst (outstanding_jobs (jobs s')) = dispatched s'"
proof (cases act)
  case (Thread i r)
  with assms show ?thesis
    by (auto simp: step_def thread_end_def split: if_splits prod.splits option.splits
        dest: do_job_end_jobs)
next
  case (Main r)
  have d: "map fst (outstanding_jobs (jobs t')) = dispatched t'"
    if "dispatch a r nxt t = Some t'" "map fst (outstanding_jobs (jobs t)) = dispatched t"
    for nxt t t'
    using that assms(1)
    by (auto simp: dispatch_def split: option.splits dest: start_job_jobs)
  from Main assms(2) have m: "main_step a cm r s = Some s'" by (simp add: step_def)
  show ?thesis
  proof (cases "pc s")
    case (Loop todo)
    with m assms(3) show ?thesis
      by (cases todo) (auto simp: main_step_def Let_def split: if_splits intro: d)
  next
    case (Check rest)
    with m assms(3) show ?thesis by (auto simp: main_step_def split: if_splits)
  next
    case Remainder
    with m assms(3) show ?thesis by (auto simp: main_step_def split: if_splits intro: d)
  next
    case Wait
    with m assms(3) show ?thesis
      by (auto simp: main_step_def split: if_splits option.splits sum.splits)
  next
    case (Done x)
    with m show ?thesis by (simp add: main_step_def)
  qed
qed

lemma dispatched_are_jobs:
  assumes "threads a \<noteq> 1"
  shows "run_steps a cm acts s = Some s' \<Longrightarrow> map fst (outstanding_jobs (jobs s)) = dispatched s \<Longrightarrow>
         map fst (outstanding_jobs (jobs s')) = dispatched s'"
proof (induction acts arbitrary: s)
  case Nil
  then show ?case by simp
next
  case (Cons act acts)
  from Cons.prems(1) obtain s1 where 1: "step a cm act s = Some s1"
    and 2: "run_steps a cm acts s1 = Some s'"
    by (auto split: option.splits)
  from Cons.IH [OF 2 step_jobs [OF assms 1 Cons.prems(2)]] show ?case .
qed

text \<open>\<open>ceil_div\<close> is the quotient rounded up.\<close>

lemma ceil_div_ceiling:
  assumes "0 < m"
  shows "int (ceil_div n m) = \<lceil>real n / real m\<rceil>"
proof -
  have "\<lceil>real n / real m\<rceil> = \<lceil>(of_int (int n) :: real) / of_int (int m)\<rceil>"
    by simp
  also have "\<dots> = - (- int n div int m)"
    by (rule ceiling_divide_eq_div)
  also have "\<dots> = (if int n mod int m = 0 then int n div int m else int n div int m + 1)"
    using assms by (simp add: zdiv_zminus1_eq_if)
  also have "\<dots> = int (n div m + (if n mod m = 0 then 0 else 1))"
    by (simp add: zdiv_int zmod_int [symmetric] del: of_nat_mod of_nat_div)
  finally show ?thesis
    by (simp add: ceil_div_split [OF assms])
qed

end
